theory Spec2Isabelle
  imports Complex_Main "HOL-Library.Sublist" "HOL-Library.AList" "HOL-Library.Multiset"
begin

section \<open>Text processing of a model's answer\<close>

text \<open>
  Python strings are sequences of code points; here a string is a \<^typ>\<open>char list\<close>, one
  \<^typ>\<open>char\<close> per code point, which covers the code points below 256. Within that range
  \<open>is_space\<close> is what the pattern \<^verbatim>\<open>\s\<close> matches on a \<^verbatim>\<open>str\<close> and \<open>lower\<close> is the
  case folding that \<^verbatim>\<open>re.IGNORECASE\<close> compares with.
\<close>

definition is_space :: "char \<Rightarrow> bool" where
  "is_space c = (let n = (of_char c :: nat) in
     (9 \<le> n \<and> n \<le> 13) \<or> (28 \<le> n \<and> n \<le> 32) \<or> n = 133 \<or> n = 160)"

definition lower :: "char \<Rightarrow> char" where
  "lower c = (let n = (of_char c :: nat) in
     if (65 \<le> n \<and> n \<le> 90) \<or> (192 \<le> n \<and> n \<le> 222 \<and> n \<noteq> 215)
     then char_of (n + 32) else c)"

text \<open>A literal pattern matched at the start of the text under \<^verbatim>\<open>re.IGNORECASE\<close>.\<close>

fun ci_prefix :: "string \<Rightarrow> string \<Rightarrow> bool" where
  "ci_prefix [] s = True"
| "ci_prefix (p # ps) [] = False"
| "ci_prefix (p # ps) (c # cs) = (lower c = lower p \<and> ci_prefix ps cs)"

text \<open>
  \<^verbatim>\<open>re.sub(r"```(?:svg|xml|html)?\s*\n?", "", content)\<close>.
  \<open>fence_tail\<close> is applied to the text just after three backticks and returns what follows
  the match: the optional group takes the first alternative that fits, \<^verbatim>\<open>\s*\<close> is greedy,
  and \<^verbatim>\<open>\n?\<close> takes a newline if one is next. Every later part of the pattern can match
  the empty string, so the first attempt succeeds and nothing is ever given back.
\<close>

definition opt_lang :: "string \<Rightarrow> string" where
  "opt_lang s = (if prefix ''svg'' s then drop 3 s
                 else if prefix ''xml'' s then drop 3 s
                 else if prefix ''html'' s then drop 4 s
                 else s)"

definition opt_newline :: "string \<Rightarrow> string" where
  "opt_newline s = (case s of [] \<Rightarrow> [] | c # cs \<Rightarrow> if c = CHR 0x0A then cs else c # cs)"

definition fence_tail :: "string \<Rightarrow> string" where
  "fence_tail s = opt_newline (dropWhile is_space (opt_lang s))"

lemma length_fence_tail: "length (fence_tail s) \<le> length s"
proof -
  have a: "length (opt_lang s) \<le> length s"
    by (simp add: opt_lang_def)
  have b: "length (dropWhile is_space t) \<le> length t" for t
    by (induction t) auto
  have c: "length (opt_newline t) \<le> length t" for t
    by (cases t) (auto simp: opt_newline_def)
  show ?thesis
    unfolding fence_tail_def using a b c le_trans by blast
qed

function re_sub_fence :: "string \<Rightarrow> string" where
  "re_sub_fence [] = []"
| "re_sub_fence (c # cs) =
     (if prefix ''```'' (c # cs) then re_sub_fence (fence_tail (drop 3 (c # cs)))
      else c # re_sub_fence cs)"
  by pat_completeness auto
termination
proof (relation "measure length")
  show "wf (measure length)" by simp
next
  fix c :: char and cs :: string
  assume "prefix ''```'' (c # cs)"
  have "length (fence_tail (drop 3 (c # cs))) \<le> length (drop 3 (c # cs))"
    by (rule length_fence_tail)
  also have "\<dots> < length (c # cs)" by simp
  finally show "(fence_tail (drop 3 (c # cs)), c # cs) \<in> measure length" by simp
next
  fix c :: char and cs :: string
  show "(cs, c # cs) \<in> measure length" by simp
qed

text \<open>\<^verbatim>\<open>content.replace("```", "")\<close>: occurrences are removed from the left, without overlap.\<close>

fun replace_ticks :: "string \<Rightarrow> string" where
  "replace_ticks (a # b # c # cs) =
     (if a = CHR 0x60 \<and> b = CHR 0x60 \<and> c = CHR 0x60 then replace_ticks cs
      else a # replace_ticks (b # c # cs))"
| "replace_ticks s = s"

definition strip_fences :: "string \<Rightarrow> string" where
  "strip_fences content = replace_ticks (re_sub_fence content)"

text \<open>
  \<^verbatim>\<open>re.search(r"(<svg[\s\S]*?</svg>)", content, re.IGNORECASE)\<close>.
  \<open>lazy_to_close\<close> is the lazy \<^verbatim>\<open>[\s\S]*?</svg>\<close>: at each position the closing tag is
  tried first, and one more character (of any kind) is consumed only when it does not match.
  \<open>match_svg\<close> is one attempt at a fixed start, \<open>re_search_svg\<close> tries the starts from the
  left. The result is group 1, the matched text.
\<close>

fun lazy_to_close :: "string \<Rightarrow> string option" where
  "lazy_to_close [] = None"
| "lazy_to_close (c # cs) =
     (if ci_prefix ''</svg>'' (c # cs) then Some (take 6 (c # cs))
      else map_option ((#) c) (lazy_to_close cs))"

definition match_svg :: "string \<Rightarrow> string option" where
  "match_svg s = (if ci_prefix ''<svg'' s
                  then map_option ((@) (take 4 s)) (lazy_to_close (drop 4 s))
                  else None)"

fun re_search_svg :: "string \<Rightarrow> string option" where
  "re_search_svg [] = None"
| "re_search_svg (c # cs) =
     (case match_svg (c # cs) of Some m \<Rightarrow> Some m | None \<Rightarrow> re_search_svg cs)"

text \<open>
  The three statements of \<open>call_model\<close> that turn the answer into the match: the two
  stripping statements, then the search. \<open>call_model\<close> below branches on the result.
\<close>

definition extract_svg :: "string \<Rightarrow> string option" where
  "extract_svg content = re_search_svg (strip_fences content)"

section \<open>The dispatcher\<close>

text \<open>
  The network is the environment of \<open>call_model\<close>. \<open>respond net m k\<close> is what the
  endpoint answers to the request number \<open>k\<close> (counted from 0) for backend \<open>m\<close>, and how
  long that takes; \<open>sent\<close> is the log of the requests made so far, each with its bearer
  credential and backend identifier.

  An answer is one of: a 2xx response whose body parses and whose
  \<^verbatim>\<open>choices[0].message.content\<close> is the given string; an \<^verbatim>\<open>HTTPError\<close> with its
  status code and body; any other exception raised inside the \<^verbatim>\<open>try\<close> block (timeout,
  connection failure, malformed JSON, missing field, content that is not a string), with
  its \<^verbatim>\<open>str(e)\<close>. The body of an \<^verbatim>\<open>HTTPError\<close> is absent (\<^verbatim>\<open>e.fp\<close> is falsy), or
  \<^verbatim>\<open>e.read().decode()\<close> yields a string, or that expression raises.
\<close>

datatype err_body = NoFp | Readable string | Unreadable

datatype response = Content string | HTTPError nat err_body | Failure string

record reply =
  outcome :: response
  took :: rat

record network =
  respond :: "string \<Rightarrow> nat \<Rightarrow> reply"
  sent :: "(string \<times> string) list"

datatype exc =
    CalledProcessError | JSONDecodeError | AttributeError | KeyError
  | TypeError | ValueError | UnicodeDecodeError

definition urlopen :: "string \<Rightarrow> string \<Rightarrow> network \<Rightarrow> reply \<times> network" where
  "urlopen api_key model_id net =
     (respond net model_id (length (filter (\<lambda>r. snd r = model_id) (sent net))),
      net\<lparr>sent := sent net @ [(api_key, model_id)]\<rparr>)"

text \<open>Decimal rendering of a status code, as the f-string does it.\<close>

fun str_nat :: "nat \<Rightarrow> string" where
  "str_nat n = (if n < 10 then [''0123456789'' ! n]
                else str_nat (n div 10) @ [''0123456789'' ! (n mod 10)])"

declare str_nat.simps [simp del]

type_synonym call_result = "string \<times> string option \<times> rat \<times> string option"

text \<open>
  \<open>call_model\<close> returns \<^verbatim>\<open>(name, svg_output, elapsed, error)\<close>, or raises when the
  \<^verbatim>\<open>except HTTPError\<close> handler itself fails (an exception raised inside a handler is not
  caught by the \<^verbatim>\<open>except Exception\<close> clause beside it). \<open>read_body\<close> is the handler's
  \<^verbatim>\<open>e.read().decode() if e.fp else ""\<close>. The progress lines that are printed are not part
  of the model.
\<close>

definition read_body :: "err_body \<Rightarrow> exc + string" where
  "read_body fp = (case fp of NoFp \<Rightarrow> Inr [] | Readable b \<Rightarrow> Inr b
                   | Unreadable \<Rightarrow> Inl UnicodeDecodeError)"

definition call_model ::
  "string \<Rightarrow> string \<Rightarrow> string \<Rightarrow> network \<Rightarrow> (exc + call_result) \<times> network" where
  "call_model api_key name model_id net =
     (let (r, net') = urlopen api_key model_id net;
          elapsed = took r
      in (case outcome r of
            Content content \<Rightarrow>
              (case extract_svg content of
                 Some svg \<Rightarrow> Inr (name, Some svg, elapsed, None)
               | None \<Rightarrow> Inr (name, None, elapsed, Some ''No <svg> tag found in response''))
          | HTTPError code fp \<Rightarrow>
              (case read_body fp of
                 Inl e \<Rightarrow> Inl e
               | Inr body \<Rightarrow>
                   Inr (name, None, elapsed,
                        Some (''HTTP '' @ str_nat code @ '': '' @ take 200 body)))
          | Failure msg \<Rightarrow> Inr (name, None, elapsed, Some msg),
          net'))"

section \<open>The model table and the categories\<close>

text \<open>\<^verbatim>\<open>MODELS\<close>: display name, backend identifier, release label.\<close>

definition MODELS :: "(string \<times> string \<times> string) list" where
  "MODELS = [
     (''Claude Opus 4.6'', ''anthropic/claude-opus-4.6'', ''Feb 2026''),
     (''Claude Sonnet 4.6'', ''anthropic/claude-sonnet-4.6'', ''Feb 2026''),
     (''Claude Opus 4.5'', ''anthropic/claude-opus-4.5'', ''May 2025''),
     (''Claude Haiku 4.5'', ''anthropic/claude-haiku-4.5'', ''Jun 2025''),
     (''Claude Sonnet 4'', ''anthropic/claude-sonnet-4'', ''May 2025''),
     (''Claude Opus 4.1'', ''anthropic/claude-opus-4.1'', ''Aug 2025''),
     (''GPT-5.2'', ''openai/gpt-5.2'', ''Dec 2025''),
     (''GPT-5.1'', ''openai/gpt-5.1'', ''Nov 2025''),
     (''GPT-5'', ''openai/gpt-5'', ''Jun 2025''),
     (''GPT-5 Mini'', ''openai/gpt-5-mini'', ''Jun 2025''),
     (''GPT-4.1'', ''openai/gpt-4.1'', ''Apr 2025''),
     (''GPT-4.1 Mini'', ''openai/gpt-4.1-mini'', ''Apr 2025''),
     (''Gemini 3.1 Pro'', ''google/gemini-3.1-pro-preview'', ''Feb 2026''),
     (''Gemini 3 Pro'', ''google/gemini-3-pro-preview'', ''Nov 2025''),
     (''Gemini 3 Flash'', ''google/gemini-3-flash-preview'', ''Dec 2025''),
     (''Gemini 2.5 Pro'', ''google/gemini-2.5-pro'', ''Jun 2025''),
     (''Gemini 2.5 Flash'', ''google/gemini-2.5-flash'', ''Jun 2025''),
     (''Grok 4'', ''x-ai/grok-4'', ''Jul 2025''),
     (''Grok 4.1 Fast'', ''x-ai/grok-4.1-fast'', ''Nov 2025''),
     (''Grok 4 Fast'', ''x-ai/grok-4-fast'', ''Sep 2025''),
     (''Grok 3'', ''x-ai/grok-3'', ''Jun 2025''),
     (''Grok 3 Mini'', ''x-ai/grok-3-mini'', ''Jun 2025''),
     (''DeepSeek V3.2'', ''deepseek/deepseek-v3.2'', ''Oct 2025''),
     (''DeepSeek V3.1'', ''deepseek/deepseek-chat-v3.1'', ''Sep 2025''),
     (''DeepSeek R1'', ''deepseek/deepseek-r1'', ''Jan 2025''),
     (''Kimi K2.5'', ''moonshotai/kimi-k2.5'', ''Jan 2026''),
     (''Kimi K2'', ''moonshotai/kimi-k2'', ''Jul 2025''),
     (''MiniMax M2.5'', ''minimax/minimax-m2.5'', ''Feb 2026''),
     (''GLM-5'', ''z-ai/glm-5'', ''Feb 2026''),
     (''Qwen3 Max Thinking'', ''qwen/qwen3-max-thinking'', ''Feb 2026''),
     (''Qwen 3.5 397B'', ''qwen/qwen3.5-397b-a17b'', ''Feb 2026''),
     (''Qwen3 235B (Full)'', ''qwen/qwen3-235b-a22b'', ''Apr 2025''),
     (''Qwen3 32B'', ''qwen/qwen3-32b'', ''Apr 2025''),
     (''Qwen3 14B'', ''qwen/qwen3-14b'', ''Apr 2025''),
     (''Qwen3 8B'', ''qwen/qwen3-8b'', ''Apr 2025''),
     (''Qwen 2.5 7B'', ''qwen/qwen-2.5-7b-instruct'', ''Oct 2024'')]"

text \<open>\<^verbatim>\<open>CATEGORIES\<close>: label and display names, in the order of the report.\<close>

definition CATEGORIES :: "(string \<times> string list) list" where
  "CATEGORIES = [
     (''Anthropic (current + historical)'',
      [''Claude Opus 4.6'', ''Claude Sonnet 4.6'', ''Claude Opus 4.5'', ''Claude Haiku 4.5'', ''Claude Opus 4.1'', ''Claude Sonnet 4'']),
     (''OpenAI (current + historical)'',
      [''GPT-5.2'', ''GPT-5.1'', ''GPT-5'', ''GPT-5 Mini'', ''GPT-4.1'', ''GPT-4.1 Mini'']),
     (''Google'',
      [''Gemini 3.1 Pro'', ''Gemini 3 Pro'', ''Gemini 3 Flash'', ''Gemini 2.5 Pro'', ''Gemini 2.5 Flash'']),
     (''xAI / Grok (current + historical)'',
      [''Grok 4.1 Fast'', ''Grok 4'', ''Grok 4 Fast'', ''Grok 3'', ''Grok 3 Mini'']),
     (''Chinese Models (current + historical)'',
      [''GLM-5'', ''MiniMax M2.5'', ''Kimi K2.5'', ''Kimi K2'', ''DeepSeek V3.2'', ''DeepSeek V3.1'', ''DeepSeek R1'']),
     (''Qwen -- Full to Small'',
      [''Qwen3 Max Thinking'', ''Qwen 3.5 397B'', ''Qwen3 235B (Full)'', ''Qwen3 32B'', ''Qwen3 14B'', ''Qwen3 8B'', ''Qwen 2.5 7B''])]"

section \<open>Values read from the cache store\<close>

text \<open>
  \<^verbatim>\<open>json.load\<close> returns whatever JSON the store holds, so a cache entry is a Python value
  of any shape. Numbers stand for Python's \<^verbatim>\<open>int\<close> and \<^verbatim>\<open>float\<close>; durations are kept as
  exact numbers, their rounding is not modelled. A dictionary is an association list in
  insertion order, and \<^verbatim>\<open>d[k] = v\<close> is \<^const>\<open>AList.update\<close>.
\<close>

datatype pyval =
    PNone | PBool bool | PNum rat | PStr string
  | PList "pyval list" | PDict "(string \<times> pyval) list"

text \<open>Truth value testing, as \<^verbatim>\<open>if x\<close>, \<^verbatim>\<open>x and y\<close>, \<^verbatim>\<open>not x\<close> do it.\<close>

fun truthy :: "pyval \<Rightarrow> bool" where
  "truthy PNone = False"
| "truthy (PBool b) = b"
| "truthy (PNum n) = (n \<noteq> 0)"
| "truthy (PStr s) = (s \<noteq> [])"
| "truthy (PList xs) = (xs \<noteq> [])"
| "truthy (PDict kvs) = (kvs \<noteq> [])"

text \<open>A value that is \<^verbatim>\<open>None\<close> or a \<^verbatim>\<open>str\<close>, as \<open>call_model\<close> returns them.\<close>

definition of_opt :: "string option \<Rightarrow> pyval" where
  "of_opt s = (case s of None \<Rightarrow> PNone | Some t \<Rightarrow> PStr t)"

text \<open>\<^verbatim>\<open>x.get(k)\<close> and \<^verbatim>\<open>x[k]\<close> for a string key; only a dictionary has \<^verbatim>\<open>get\<close>.\<close>

fun py_get :: "pyval \<Rightarrow> string \<Rightarrow> exc + pyval" where
  "py_get (PDict kvs) k = Inr (case map_of kvs k of None \<Rightarrow> PNone | Some v \<Rightarrow> v)"
| "py_get v k = Inl AttributeError"

fun py_item :: "pyval \<Rightarrow> string \<Rightarrow> exc + pyval" where
  "py_item (PDict kvs) k = (case map_of kvs k of None \<Rightarrow> Inl KeyError | Some v \<Rightarrow> Inr v)"
| "py_item v k = Inl TypeError"

text \<open>
  The format specification \<^verbatim>\<open>.1f\<close> accepts a number (a \<^verbatim>\<open>bool\<close> is one); a string raises
  \<^verbatim>\<open>ValueError\<close> and every other value \<^verbatim>\<open>TypeError\<close>. The digits it prints are not
  modelled: the value itself is kept.
\<close>

fun format_1f :: "pyval \<Rightarrow> exc + pyval" where
  "format_1f (PNum n) = Inr (PNum n)"
| "format_1f (PBool b) = Inr (PBool b)"
| "format_1f (PStr s) = Inl ValueError"
| "format_1f v = Inl TypeError"

section \<open>The result cache\<close>

text \<open>
  \<^verbatim>\<open>cache.json\<close> is absent, or holds text that is not JSON, or holds a JSON object, given
  here as the dictionary it parses to.
\<close>

type_synonym cache = "(string \<times> pyval) list"

datatype store = Absent | Corrupt | Stored cache

definition load_cache :: "store \<Rightarrow> exc + cache" where
  "load_cache st = (case st of Absent \<Rightarrow> Inr [] | Corrupt \<Rightarrow> Inl JSONDecodeError
                    | Stored c \<Rightarrow> Inr c)"

definition save_cache :: "cache \<Rightarrow> store" where
  "save_cache cache = Stored cache"

section \<open>The report\<close>

text \<open>
  The document is represented by the values the template splices into it, in their order:
  the two counts of the subtitle and, per category, the heading and the cards. The fixed
  markup, the style sheet and the time stamp are left out. A card shows the error text when
  \<^verbatim>\<open>error\<close> is truthy and the value of \<^verbatim>\<open>svg\<close> otherwise.
\<close>

type_synonym result = "pyval \<times> pyval \<times> string option"

type_synonym results = "(string \<times> result) list"

datatype panel = ErrorPanel string | SvgPanel pyval

record card =
  card_name :: string
  card_date :: string
  card_elapsed :: pyval
  card_content :: panel

record report =
  rep_total :: nat
  rep_success :: nat
  rep_sections :: "(string \<times> card list) list"

definition dict_of :: "('k \<times> 'v) list \<Rightarrow> ('k \<times> 'v) list" where
  "dict_of kvs = foldl (\<lambda>d (k, v). AList.update k v d) [] kvs"

definition model_dates :: "(string \<times> string) list" where
  "model_dates = dict_of (map (\<lambda>(name, mid, date). (name, date)) MODELS)"

definition model_map :: "(string \<times> string) list" where
  "model_map = dict_of (map (\<lambda>(name, mid, date). (name, mid)) MODELS)"

fun cards_html :: "results \<Rightarrow> (string \<times> string) list \<Rightarrow> string list \<Rightarrow> exc + card list" where
  "cards_html results dates [] = Inr []"
| "cards_html results dates (name # names) =
     (case map_of results name of
        None \<Rightarrow> cards_html results dates names
      | Some (svg, elapsed, error) \<Rightarrow>
          (let date = (case map_of dates name of None \<Rightarrow> [] | Some d \<Rightarrow> d);
               content = (case error of
                            None \<Rightarrow> SvgPanel svg
                          | Some e \<Rightarrow> if e \<noteq> [] then ErrorPanel e else SvgPanel svg)
           in case format_1f elapsed of
                Inl x \<Rightarrow> Inl x
              | Inr t \<Rightarrow>
                  (case cards_html results dates names of
                     Inl x \<Rightarrow> Inl x
                   | Inr cs \<Rightarrow>
                       Inr (\<lparr>card_name = name, card_date = date, card_elapsed = t,
                             card_content = content\<rparr> # cs))))"

fun sections_html ::
  "results \<Rightarrow> (string \<times> string) list \<Rightarrow> (string \<times> string list) list
   \<Rightarrow> exc + (string \<times> card list) list" where
  "sections_html results dates [] = Inr []"
| "sections_html results dates ((cat_name, model_names) # cats) =
     (case cards_html results dates model_names of
        Inl x \<Rightarrow> Inl x
      | Inr cs \<Rightarrow>
          (case sections_html results dates cats of
             Inl x \<Rightarrow> Inl x
           | Inr ss \<Rightarrow> Inr ((cat_name, cs) # ss)))"

definition build_html :: "results \<Rightarrow> (string \<times> string) list \<Rightarrow> exc + report" where
  "build_html results dates =
     (case sections_html results dates CATEGORIES of
        Inl x \<Rightarrow> Inl x
      | Inr ss \<Rightarrow>
          Inr \<lparr>rep_total = length results,
               rep_success = length (filter (\<lambda>(name, svg, elapsed, error). error = None) results),
               rep_sections = ss\<rparr>)"

section \<open>The run\<close>

text \<open>
  The environment of a run: the environment variable, the output of the secret-lookup
  command (\<open>None\<close> when the command fails or does not exist), the cache store, the network,
  and the choices of the scheduler. The credential is \<^verbatim>\<open>os.environ.get(...) or
  subprocess.check_output(...).strip()\<close>, evaluated when the module is loaded.
\<close>

record world =
  env_key :: "string option"
  secrets_out :: "string option"
  cache_file :: store
  internet :: network
  picks :: "nat list"

definition strip :: "string \<Rightarrow> string" where
  "strip s = rev (dropWhile is_space (rev (dropWhile is_space s)))"

definition API_KEY :: "string option \<Rightarrow> string option \<Rightarrow> exc + string" where
  "API_KEY env secrets =
     (let lookup = (case secrets of None \<Rightarrow> Inl CalledProcessError | Some out \<Rightarrow> Inr (strip out))
      in case env of None \<Rightarrow> lookup | Some k \<Rightarrow> if k \<noteq> [] then Inr k else lookup)"

text \<open>
  The loop that splits the models into cache hits and models to call:
  \<^verbatim>\<open>if name in cache and cache[name].get("svg")\<close>.
\<close>

fun partition_models ::
  "cache \<Rightarrow> (string \<times> string) list \<Rightarrow> results \<Rightarrow> (string \<times> string) list
   \<Rightarrow> exc + results \<times> (string \<times> string) list" where
  "partition_models cache [] results to_call = Inr (results, to_call)"
| "partition_models cache ((name, mid) # rest) results to_call =
     (case map_of cache name of
        None \<Rightarrow> partition_models cache rest results (AList.update name mid to_call)
      | Some entry \<Rightarrow>
          (case py_get entry ''svg'' of
             Inl x \<Rightarrow> Inl x
           | Inr v \<Rightarrow>
               if truthy v then
                 (case py_item entry ''svg'' of
                    Inl x \<Rightarrow> Inl x
                  | Inr svg \<Rightarrow>
                      (case py_item entry ''elapsed'' of
                         Inl x \<Rightarrow> Inl x
                       | Inr elapsed \<Rightarrow>
                           partition_models cache rest
                             (AList.update name (svg, elapsed, None) results) to_call))
               else partition_models cache rest results (AList.update name mid to_call)))"

text \<open>
  Every submitted call runs, whatever happens to the others; the requests are logged in
  the order of submission. \<open>as_completed\<close> yields the futures in an order the scheduler
  chooses: each pick selects one of the futures not yet yielded.
\<close>

fun dispatch ::
  "string \<Rightarrow> (string \<times> string) list \<Rightarrow> network \<Rightarrow> (exc + call_result) list \<times> network" where
  "dispatch api_key [] nw = ([], nw)"
| "dispatch api_key ((name, mid) # rest) nw =
     (let (f, nw1) = call_model api_key name mid nw;
          (fs, nw2) = dispatch api_key rest nw1
      in (f # fs, nw2))"

fun as_completed :: "nat list \<Rightarrow> 'a list \<Rightarrow> 'a list" where
  "as_completed ps [] = []"
| "as_completed [] (x # xs) = x # xs"
| "as_completed (p # ps) (x # xs) =
     (let i = p mod length (x # xs)
      in (x # xs) ! i # as_completed ps (take i (x # xs) @ drop (Suc i) (x # xs)))"

text \<open>
  The loop over the completed futures. \<^verbatim>\<open>future.result()\<close> re-raises what the call raised;
  otherwise the result is stored, and cached when \<^verbatim>\<open>svg and not error\<close>.
\<close>

fun collect ::
  "(exc + call_result) list \<Rightarrow> results \<Rightarrow> cache \<Rightarrow> exc + results \<times> cache" where
  "collect [] results cache = Inr (results, cache)"
| "collect (Inl x # fs) results cache = Inl x"
| "collect (Inr (name, svg, elapsed, error) # fs) results cache =
     collect fs
       (AList.update name (of_opt svg, PNum elapsed, error) results)
       (if truthy (of_opt svg) \<and> \<not> truthy (of_opt error)
        then AList.update name (PDict [(''svg'', of_opt svg), (''elapsed'', PNum elapsed)]) cache
        else cache)"

text \<open>The lines of the final table: name, duration, and \<^verbatim>\<open>OK\<close> or the error cut at 60.\<close>

fun summary_lines ::
  "results \<Rightarrow> (string \<times> string) list \<Rightarrow> exc + (string \<times> pyval \<times> string) list" where
  "summary_lines results [] = Inr []"
| "summary_lines results ((name, mid) # rest) =
     (case map_of results name of
        None \<Rightarrow> summary_lines results rest
      | Some (svg, elapsed, error) \<Rightarrow>
          (let status = (if \<not> truthy (of_opt error) then ''OK''
                         else ''FAIL: '' @ take 60 (case error of None \<Rightarrow> [] | Some e \<Rightarrow> e))
           in case format_1f elapsed of
                Inl x \<Rightarrow> Inl x
              | Inr t \<Rightarrow>
                  (case summary_lines results rest of
                     Inl x \<Rightarrow> Inl x
                   | Inr ls \<Rightarrow> Inr ((name, t, status) # ls))))"

text \<open>
  What a run leaves behind. The exit status is 1 when an exception reaches the top level
  and 0 when the script runs to its end. \<open>saved\<close> lists the calls of \<open>save_cache\<close> with their
  argument, \<open>attempted\<close> the models submitted to the pool, \<open>returned\<close> the results that
  \<open>call_model\<close> returned, \<open>merged\<close> the result dictionary, \<open>index_html\<close> the report written
  and \<open>console\<close> the final table.
\<close>

record run =
  exit_status :: nat
  saved :: "cache list"
  net_after :: network
  attempted :: "string list"
  returned :: "call_result list"
  merged :: results
  index_html :: "report option"
  console :: "(string \<times> pyval \<times> string) list"

definition aborted :: "world \<Rightarrow> run" where
  "aborted w = \<lparr>exit_status = 1, saved = [], net_after = internet w, attempted = [],
                returned = [], merged = [], index_html = None, console = []\<rparr>"

definition returned_of :: "(exc + call_result) list \<Rightarrow> call_result list" where
  "returned_of fs = concat (map (\<lambda>f. case f of Inl x \<Rightarrow> [] | Inr r \<Rightarrow> [r]) fs)"

definition finish :: "run \<Rightarrow> results \<Rightarrow> run" where
  "finish r results =
     (case build_html results model_dates of
        Inl x \<Rightarrow> r\<lparr>merged := results\<rparr>
      | Inr html \<Rightarrow>
          (case summary_lines results model_map of
             Inl x \<Rightarrow> r\<lparr>merged := results, index_html := Some html\<rparr>
           | Inr ls \<Rightarrow>
               r\<lparr>exit_status := 0, merged := results, index_html := Some html,
                  console := ls\<rparr>))"

definition main :: "string \<Rightarrow> world \<Rightarrow> run" where
  "main api_key w =
     (case load_cache (cache_file w) of
        Inl x \<Rightarrow> aborted w
      | Inr cache \<Rightarrow>
          (case partition_models cache model_map [] [] of
             Inl x \<Rightarrow> aborted w
           | Inr (results, to_call) \<Rightarrow>
               if to_call \<noteq> [] then
                 (let (futures, nw) = dispatch api_key to_call (internet w);
                      r = (aborted w)\<lparr>net_after := nw, attempted := map fst to_call,
                                      returned := returned_of futures\<rparr>
                  in case collect (as_completed (picks w) futures) results cache of
                       Inl x \<Rightarrow> r
                     | Inr (results', cache') \<Rightarrow> finish (r\<lparr>saved := [cache']\<rparr>) results')
               else finish (aborted w) results))"

definition program :: "world \<Rightarrow> run" where
  "program w = (case API_KEY (env_key w) (secrets_out w) of
                  Inl x \<Rightarrow> aborted w
                | Inr api_key \<Rightarrow> main api_key w)"

text \<open>The cache store after a run: the last mapping saved, or the store as it was.\<close>

definition store_after :: "world \<Rightarrow> run \<Rightarrow> store" where
  "store_after w r = (case saved r of [] \<Rightarrow> cache_file w | c # cs \<Rightarrow> save_cache (last (c # cs)))"

section \<open>Notions used to state the properties\<close>

text \<open>
  \<open>occurs_ci p t i\<close>: the literal \<open>p\<close> occurs in \<open>t\<close> at offset \<open>i\<close>, letter case ignored.
  This is the notion of "a case-insensitive \<^verbatim>\<open><svg\<close>" that the extraction is measured
  against; it does not refer to the matcher above.
\<close>

definition occurs_ci :: "string \<Rightarrow> string \<Rightarrow> nat \<Rightarrow> bool" where
  "occurs_ci p t i = (i + length p \<le> length t \<and> map lower (take (length p) (drop i t)) = map lower p)"

text \<open>The number of backticks a text starts with.\<close>

definition tick_run :: "string \<Rightarrow> nat" where
  "tick_run s = length (takeWhile (\<lambda>c. c = CHR 0x60) s)"

text \<open>The answer used as the extraction example, with its apostrophe and its two newlines.\<close>

definition example_answer :: string where
  "example_answer = ''here'' @ [CHR 0x27] @ ''s your svg: ```svg'' @ [CHR 0x0A]
      @ ''<svg><circle/></svg>'' @ [CHR 0x0A] @ ''``` thanks''"

text \<open>
  \<open>decimal_of n ds\<close>: the text \<open>ds\<close> is the decimal numeral of \<open>n\<close>: digits only, read
  in base ten they give \<open>n\<close>, and there is no leading zero (zero itself is \<^verbatim>\<open>0\<close>). This
  is what an f-string prints for an \<^verbatim>\<open>int\<close> that is not negative; it does not refer to
  \<open>str_nat\<close>.
\<close>

definition is_digit :: "char \<Rightarrow> bool" where
  "is_digit c = (48 \<le> (of_char c :: nat) \<and> (of_char c :: nat) \<le> 57)"

definition digit_value :: "char \<Rightarrow> nat" where
  "digit_value c = of_char c - 48"

definition decimal_value :: "string \<Rightarrow> nat" where
  "decimal_value ds = foldl (\<lambda>a c. 10 * a + digit_value c) 0 ds"

definition decimal_of :: "nat \<Rightarrow> string \<Rightarrow> bool" where
  "decimal_of n ds = (ds \<noteq> [] \<and> list_all is_digit ds \<and> decimal_value ds = n
                      \<and> (if n = 0 then ds = ''0'' else hd ds \<noteq> CHR ''0''))"

text \<open>A network that gives the same answer to every request, after two seconds.\<close>

definition canned :: "response \<Rightarrow> network" where
  "canned r = \<lparr>respond = (\<lambda>m k. \<lparr>outcome = r, took = 2\<rparr>), sent = []\<rparr>"


text \<open>The number of requests in a log that went to one backend.\<close>

definition requests_to :: "string \<Rightarrow> (string \<times> string) list \<Rightarrow> nat" where
  "requests_to mid reqs = length (filter (\<lambda>q. snd q = mid) reqs)"

text \<open>
  \<open>cache_hit cache name\<close>: the store has an entry for the model and the entry's
  \<^verbatim>\<open>svg\<close> field is truthy. \<open>entry_ok\<close>: an entry of the documented shape, a dictionary
  with a string under \<^verbatim>\<open>svg\<close> and a number under \<^verbatim>\<open>elapsed\<close>. \<open>numeric\<close>: a value
  that \<^verbatim>\<open>.1f\<close> can format.
\<close>

definition cache_hit :: "cache \<Rightarrow> string \<Rightarrow> bool" where
  "cache_hit cache name =
     (case map_of cache name of
        None \<Rightarrow> False
      | Some entry \<Rightarrow> (case py_get entry ''svg'' of Inl x \<Rightarrow> False | Inr v \<Rightarrow> truthy v))"

fun entry_ok :: "pyval \<Rightarrow> bool" where
  "entry_ok (PDict kvs) =
     (case map_of kvs ''svg'' of
        Some (PStr s) \<Rightarrow> (case map_of kvs ''elapsed'' of Some (PNum e) \<Rightarrow> True | _ \<Rightarrow> False)
      | _ \<Rightarrow> False)"
| "entry_ok v = False"

fun numeric :: "pyval \<Rightarrow> bool" where
  "numeric (PNum n) = True"
| "numeric (PBool b) = True"
| "numeric v = False"

definition store_ok :: "store \<Rightarrow> bool" where
  "store_ok st = (case st of Absent \<Rightarrow> True | Corrupt \<Rightarrow> False
                  | Stored c \<Rightarrow> list_all (\<lambda>(name, entry). entry_ok entry) c)"

text \<open>The entry that a successful call writes to the cache.\<close>

definition entry_of :: "string \<Rightarrow> rat \<Rightarrow> pyval" where
  "entry_of svg elapsed = PDict [(''svg'', PStr svg), (''elapsed'', PNum elapsed)]"

definition failed :: "call_result \<Rightarrow> bool" where
  "failed r = (case r of (name, svg, elapsed, error) \<Rightarrow> error \<noteq> None)"

definition to_result :: "call_result \<Rightarrow> string \<times> result" where
  "to_result r = (case r of (name, svg, elapsed, error) \<Rightarrow> (name, of_opt svg, PNum elapsed, error))"

section \<open>The search finds the first fragment\<close>

lemma ci_prefix_iff: "ci_prefix p s \<longleftrightarrow> length p \<le> length s \<and> map lower (take (length p) s) = map lower p"
  by (induction p s rule: ci_prefix.induct) auto

declare ci_prefix.simps [simp del]

lemma occurs_ci_drop: "p \<noteq> [] \<Longrightarrow> occurs_ci p t i \<longleftrightarrow> ci_prefix p (drop i t)"
  by (cases p) (auto simp: occurs_ci_def ci_prefix_iff)

lemma occurs_ci_0: "p \<noteq> [] \<Longrightarrow> occurs_ci p t 0 \<longleftrightarrow> ci_prefix p t"
  by (simp add: occurs_ci_drop)

lemma occurs_ci_Suc: "occurs_ci p (c # cs) (Suc i) \<longleftrightarrow> occurs_ci p cs i"
  by (simp add: occurs_ci_def)

lemma lazy_to_close_first:
  "occurs_ci ''</svg>'' s j \<Longrightarrow> (\<forall>k<j. \<not> occurs_ci ''</svg>'' s k) \<Longrightarrow>
   lazy_to_close s = Some (take (j + 6) s)"
proof (induction s arbitrary: j)
  case Nil
  then show ?case by (simp add: occurs_ci_def)
next
  case (Cons c cs)
  show ?case
  proof (cases j)
    case 0
    with Cons.prems show ?thesis by (simp add: occurs_ci_0)
  next
    case (Suc j')
    from Cons.prems Suc have n0: "\<not> ci_prefix ''</svg>'' (c # cs)"
      by (simp add: occurs_ci_0 [symmetric])
    from Cons.prems Suc have a: "occurs_ci ''</svg>'' cs j'" by (simp add: occurs_ci_Suc)
    have b: "\<forall>k<j'. \<not> occurs_ci ''</svg>'' cs k"
    proof (intro allI impI)
      fix k assume "k < j'"
      then have "Suc k < j" using Suc by simp
      with Cons.prems have "\<not> occurs_ci ''</svg>'' (c # cs) (Suc k)" by blast
      then show "\<not> occurs_ci ''</svg>'' cs k" by (simp add: occurs_ci_Suc)
    qed
    have "take (j + 6) (c # cs) = c # take (j' + 6) cs"
      unfolding Suc by (simp only: add_Suc take_Suc_Cons)
    moreover have "lazy_to_close (c # cs) = map_option ((#) c) (lazy_to_close cs)"
      using n0 by simp
    ultimately show ?thesis using Cons.IH [OF a b] by simp
  qed
qed

lemma lazy_to_close_none:
  "(\<forall>j. \<not> occurs_ci ''</svg>'' s j) \<Longrightarrow> lazy_to_close s = None"
proof (induction s)
  case Nil
  then show ?case by simp
next
  case (Cons c cs)
  from Cons.prems have n0: "\<not> ci_prefix ''</svg>'' (c # cs)"
    by (simp add: occurs_ci_0 [symmetric])
  have "\<forall>j. \<not> occurs_ci ''</svg>'' cs j"
  proof
    fix j show "\<not> occurs_ci ''</svg>'' cs j"
      using Cons.prems [rule_format, of "Suc j"] by (simp add: occurs_ci_Suc)
  qed
  with Cons.IH n0 show ?case by simp
qed

lemma match_svg_first:
  assumes "occurs_ci ''<svg'' t 0" and "4 \<le> j" and "occurs_ci ''</svg>'' t j"
    and "\<forall>k. 4 \<le> k \<and> k < j \<longrightarrow> \<not> occurs_ci ''</svg>'' t k"
  shows "match_svg t = Some (take (j + 6) t)"
proof -
  from assms(2) obtain j' where j: "j = 4 + j'" using le_Suc_ex by blast
  have a: "occurs_ci ''</svg>'' (drop 4 t) j'"
    using assms(3) j by (simp add: occurs_ci_drop add.commute)
  have b: "\<forall>k<j'. \<not> occurs_ci ''</svg>'' (drop 4 t) k"
  proof (intro allI impI)
    fix k assume "k < j'"
    then have "4 \<le> 4 + k \<and> 4 + k < j" using j by simp
    with assms(4) have "\<not> occurs_ci ''</svg>'' t (4 + k)" by blast
    then show "\<not> occurs_ci ''</svg>'' (drop 4 t) k" by (simp add: occurs_ci_drop add.commute)
  qed
  have "lazy_to_close (drop 4 t) = Some (take (j' + 6) (drop 4 t))"
    by (rule lazy_to_close_first [OF a b])
  moreover have "take 4 t @ take (j' + 6) (drop 4 t) = take (4 + (j' + 6)) t"
    by (simp only: take_add)
  moreover have "4 + (j' + 6) = j + 6" using j by simp
  moreover have "ci_prefix ''<svg'' t" using assms(1) by (simp add: occurs_ci_0)
  ultimately show ?thesis by (simp add: match_svg_def)
qed

lemma match_svg_none:
  "\<not> occurs_ci ''<svg'' t 0 \<or> (\<forall>j. 4 \<le> j \<longrightarrow> \<not> occurs_ci ''</svg>'' t j) \<Longrightarrow> match_svg t = None"
proof (cases "ci_prefix ''<svg'' t")
  case False
  then show ?thesis by (simp add: match_svg_def)
next
  case True
  assume "\<not> occurs_ci ''<svg'' t 0 \<or> (\<forall>j. 4 \<le> j \<longrightarrow> \<not> occurs_ci ''</svg>'' t j)"
  with True have "\<forall>j. 4 \<le> j \<longrightarrow> \<not> occurs_ci ''</svg>'' t j" by (simp add: occurs_ci_0)
  then have "\<forall>j. \<not> occurs_ci ''</svg>'' (drop 4 t) j"
    by (simp add: occurs_ci_drop add.commute)
  then show ?thesis by (simp add: match_svg_def lazy_to_close_none)
qed

lemma re_search_svg_first:
  "occurs_ci ''<svg'' t i \<Longrightarrow> (\<forall>k<i. \<not> occurs_ci ''<svg'' t k) \<Longrightarrow> i + 4 \<le> j \<Longrightarrow>
   occurs_ci ''</svg>'' t j \<Longrightarrow> (\<forall>k. i + 4 \<le> k \<and> k < j \<longrightarrow> \<not> occurs_ci ''</svg>'' t k) \<Longrightarrow>
   re_search_svg t = Some (take (j + 6 - i) (drop i t))"
proof (induction t arbitrary: i j)
  case Nil
  then show ?case by (simp add: occurs_ci_def)
next
  case (Cons c cs)
  show ?case
  proof (cases i)
    case 0
    have "match_svg (c # cs) = Some (take (j + 6) (c # cs))"
    proof (rule match_svg_first)
      show "occurs_ci ''<svg'' (c # cs) 0" using Cons.prems(1) 0 by simp
      show "4 \<le> j" using Cons.prems(3) by simp
      show "occurs_ci ''</svg>'' (c # cs) j" by (rule Cons.prems(4))
      show "\<forall>k. 4 \<le> k \<and> k < j \<longrightarrow> \<not> occurs_ci ''</svg>'' (c # cs) k"
        using Cons.prems(5) 0 by simp
    qed
    with 0 show ?thesis by simp
  next
    case (Suc i')
    with Cons.prems(2) have "\<not> occurs_ci ''<svg'' (c # cs) 0" by blast
    then have m: "match_svg (c # cs) = None" by (simp add: match_svg_none)
    from Cons.prems(3) Suc obtain j' where j: "j = Suc j'" by (cases j) auto
    have a: "occurs_ci ''<svg'' cs i'" using Cons.prems(1) Suc by (simp add: occurs_ci_Suc)
    have b: "\<forall>k<i'. \<not> occurs_ci ''<svg'' cs k"
    proof (intro allI impI)
      fix k assume "k < i'"
      then have "Suc k < i" using Suc by simp
      with Cons.prems(2) have "\<not> occurs_ci ''<svg'' (c # cs) (Suc k)" by blast
      then show "\<not> occurs_ci ''<svg'' cs k" by (simp add: occurs_ci_Suc)
    qed
    have c: "i' + 4 \<le> j'" using Cons.prems(3) Suc j by simp
    have d: "occurs_ci ''</svg>'' cs j'" using Cons.prems(4) j by (simp add: occurs_ci_Suc)
    have e: "\<forall>k. i' + 4 \<le> k \<and> k < j' \<longrightarrow> \<not> occurs_ci ''</svg>'' cs k"
    proof (intro allI impI)
      fix k assume "i' + 4 \<le> k \<and> k < j'"
      then have "i + 4 \<le> Suc k \<and> Suc k < j" using Suc j by simp
      with Cons.prems(5) have "\<not> occurs_ci ''</svg>'' (c # cs) (Suc k)" by blast
      then show "\<not> occurs_ci ''</svg>'' cs k" by (simp add: occurs_ci_Suc)
    qed
    have "re_search_svg cs = Some (take (j' + 6 - i') (drop i' cs))"
      by (rule Cons.IH [OF a b c d e])
    moreover have "Suc j' + 6 - Suc i' = j' + 6 - i'" by simp
    ultimately show ?thesis using m Suc j by simp
  qed
qed

lemma re_search_svg_none:
  "(\<forall>i j. \<not> (occurs_ci ''<svg'' t i \<and> i + 4 \<le> j \<and> occurs_ci ''</svg>'' t j)) \<Longrightarrow>
   re_search_svg t = None"
proof (induction t)
  case Nil
  then show ?case by simp
next
  case (Cons c cs)
  have "\<not> occurs_ci ''<svg'' (c # cs) 0 \<or> (\<forall>j. 4 \<le> j \<longrightarrow> \<not> occurs_ci ''</svg>'' (c # cs) j)"
  proof (cases "occurs_ci ''<svg'' (c # cs) 0")
    case True
    have "\<not> occurs_ci ''</svg>'' (c # cs) j" if "4 \<le> j" for j
      using Cons.prems [rule_format, of 0 j] True that by simp
    then show ?thesis by blast
  next
    case False
    then show ?thesis by blast
  qed
  then have "match_svg (c # cs) = None" by (rule match_svg_none)
  moreover have "\<forall>i j. \<not> (occurs_ci ''<svg'' cs i \<and> i + 4 \<le> j \<and> occurs_ci ''</svg>'' cs j)"
  proof (intro allI notI)
    fix i j assume "occurs_ci ''<svg'' cs i \<and> i + 4 \<le> j \<and> occurs_ci ''</svg>'' cs j"
    then have "occurs_ci ''<svg'' (c # cs) (Suc i) \<and> Suc i + 4 \<le> Suc j \<and> occurs_ci ''</svg>'' (c # cs) (Suc j)"
      by (simp add: occurs_ci_Suc)
    with Cons.prems show False by blast
  qed
  ultimately show ?case using Cons.IH by simp
qed

lemma lower_idem: "lower (lower c) = lower c"
proof -
  define n where "n = (of_char c :: nat)"
  have lt: "n < 256" unfolding n_def by simp
  show ?thesis
  proof (cases "(65 \<le> n \<and> n \<le> 90) \<or> (192 \<le> n \<and> n \<le> 222 \<and> n \<noteq> 215)")
    case True
    then have l: "lower c = char_of (n + 32)" by (simp add: lower_def n_def)
    have "of_char (char_of (n + 32)) = n + 32" using True by auto
    then show ?thesis using True l by (auto simp: lower_def Let_def)
  next
    case False
    then have "lower c = c" unfolding lower_def Let_def n_def by (simp only: if_False)
    then show ?thesis by simp
  qed
qed

lemma ci_prefix_lower: "ci_prefix p (map lower s) = ci_prefix p s"
  by (simp add: ci_prefix_iff take_map lower_idem comp_def)

lemma lazy_to_close_lower:
  "lazy_to_close (map lower s) = map_option (map lower) (lazy_to_close s)"
proof (induction s)
  case Nil
  then show ?case by simp
next
  case (Cons c cs)
  have "ci_prefix ''</svg>'' (lower c # map lower cs) = ci_prefix ''</svg>'' (c # cs)"
    using ci_prefix_lower [of "''</svg>''" "c # cs"] by simp
  moreover have "take 6 (lower c # map lower cs) = map lower (take 6 (c # cs))"
    using take_map [of 6 lower "c # cs"] by (simp only: list.map)
  ultimately show ?case using Cons.IH
    by (simp add: option.map_comp comp_def del: take_Cons_numeral)
qed

lemma match_svg_lower: "match_svg (map lower s) = map_option (map lower) (match_svg s)"
  by (simp add: match_svg_def ci_prefix_lower lazy_to_close_lower drop_map take_map
      option.map_comp comp_def)

lemma re_search_svg_lower:
  "re_search_svg (map lower t) = map_option (map lower) (re_search_svg t)"
proof (induction t)
  case Nil
  then show ?case by simp
next
  case (Cons c cs)
  have "match_svg (lower c # map lower cs) = map_option (map lower) (match_svg (c # cs))"
    using match_svg_lower [of "c # cs"] by simp
  then show ?case using Cons.IH by (simp split: option.splits)
qed

section \<open>Lemmas about the tables and the cache partition\<close>

subsection \<open>Dictionaries\<close>

lemma update_new: "k \<notin> fst ` set al \<Longrightarrow> AList.update k v al = al @ [(k, v)]"
  by (induction al) auto

lemma update_keys_set: "fst ` set (AList.update k v al) = insert k (fst ` set al)"
  by (induction al) auto

lemma model_map_eq: "model_map = map (\<lambda>(name, mid, date). (name, mid)) MODELS"
  by code_simp

lemma model_dates_eq: "model_dates = map (\<lambda>(name, mid, date). (name, date)) MODELS"
  by code_simp

lemma distinct_model_names: "distinct (map fst model_map)"
  by code_simp

lemma length_model_map: "length model_map = 36"
  by code_simp

subsection \<open>The partition of the models\<close>

lemma partition_to_call:
  "partition_models cache ms R T = Inr (R', T') \<Longrightarrow> distinct (map fst ms) \<Longrightarrow>
   fst ` set ms \<inter> fst ` set T = {} \<Longrightarrow>
   T' = T @ filter (\<lambda>(n, m). \<not> cache_hit cache n) ms"
proof (induction ms arbitrary: R T)
  case Nil
  then show ?case by simp
next
  case (Cons p rest)
  obtain name mid where p: "p = (name, mid)" by (cases p)
  have nT: "name \<notin> fst ` set T" using Cons.prems(3) p by auto
  have d: "distinct (map fst rest)" using Cons.prems(2) by simp
  have nr: "name \<notin> fst ` set rest" using Cons.prems(2) p by auto
  have disj: "fst ` set rest \<inter> fst ` set T = {}" using Cons.prems(3) by auto
  have disj': "fst ` set rest \<inter> fst ` set (T @ [(name, mid)]) = {}"
    using disj nr by auto
  show ?case
  proof (cases "cache_hit cache name")
    case True
    then obtain entry v where e: "map_of cache name = Some entry"
      and g: "py_get entry ''svg'' = Inr v" and t: "truthy v"
      by (auto simp: cache_hit_def split: option.splits sum.splits)
    from Cons.prems(1) p e g t obtain R1 where
      "partition_models cache rest R1 T = Inr (R', T')"
      by (auto split: sum.splits)
    from Cons.IH [OF this d disj] True p show ?thesis by simp
  next
    case False
    then have "partition_models cache (p # rest) R T
               = partition_models cache rest R (AList.update name mid T)
             \<or> (\<exists>x. partition_models cache (p # rest) R T = Inl x)"
      by (auto simp: cache_hit_def p split: option.splits sum.splits)
    with Cons.prems(1) have
      "partition_models cache rest R (T @ [(name, mid)]) = Inr (R', T')"
      using update_new [OF nT] by auto
    from Cons.IH [OF this d disj'] False p show ?thesis by simp
  qed
qed

lemma partition_results:
  "partition_models cache ms R T = Inr (R', T') \<Longrightarrow> distinct (map fst ms) \<Longrightarrow>
   fst ` set ms \<inter> fst ` set R = {} \<Longrightarrow>
   map fst R' = map fst R @ map fst (filter (\<lambda>(n, m). cache_hit cache n) ms)
   \<and> (\<forall>n s e err. (n, s, e, err) \<in> set R' \<longrightarrow>
         (n, s, e, err) \<in> set R \<or>
         (err = None \<and> cache_hit cache n \<and>
          (\<exists>entry. map_of cache n = Some entry \<and> py_item entry ''svg'' = Inr s
                   \<and> py_item entry ''elapsed'' = Inr e)))"
proof (induction ms arbitrary: R T)
  case Nil
  then show ?case by simp
next
  case (Cons p rest)
  obtain name mid where p: "p = (name, mid)" by (cases p)
  have nR: "name \<notin> fst ` set R" using Cons.prems(3) p by auto
  have d: "distinct (map fst rest)" using Cons.prems(2) by simp
  have nr: "name \<notin> fst ` set rest" using Cons.prems(2) p by auto
  have disj: "fst ` set rest \<inter> fst ` set R = {}" using Cons.prems(3) by auto
  show ?case
  proof (cases "cache_hit cache name")
    case True
    then obtain entry v where e: "map_of cache name = Some entry"
      and g: "py_get entry ''svg'' = Inr v" and t: "truthy v"
      by (auto simp: cache_hit_def split: option.splits sum.splits)
    from Cons.prems(1) p e g t obtain s el where
      s: "py_item entry ''svg'' = Inr s" and el: "py_item entry ''elapsed'' = Inr el" and
      rec: "partition_models cache rest (AList.update name (s, el, None) R) T = Inr (R', T')"
      by (auto split: sum.splits)
    have u: "AList.update name (s, el, None) R = R @ [(name, s, el, None)]"
      by (rule update_new [OF nR])
    have disj': "fst ` set rest \<inter> fst ` set (R @ [(name, s, el, None)]) = {}"
      using disj nr by auto
    note ih = Cons.IH [OF rec [unfolded u] d disj']
    have A: "map fst R' = map fst R @ map fst (filter (\<lambda>(n, m). cache_hit cache n) (p # rest))"
      using ih True p by simp
    have B: "(n, s', e', err) \<in> set R \<or>
         (err = None \<and> cache_hit cache n \<and>
          (\<exists>entry. map_of cache n = Some entry \<and> py_item entry ''svg'' = Inr s'
                   \<and> py_item entry ''elapsed'' = Inr e'))"
      if "(n, s', e', err) \<in> set R'" for n s' e' err
    proof -
      from ih that have "(n, s', e', err) \<in> set (R @ [(name, s, el, None)]) \<or>
         (err = None \<and> cache_hit cache n \<and>
          (\<exists>entry. map_of cache n = Some entry \<and> py_item entry ''svg'' = Inr s'
                   \<and> py_item entry ''elapsed'' = Inr e'))"
        by blast
      then show ?thesis
      proof
        assume "(n, s', e', err) \<in> set (R @ [(name, s, el, None)])"
        then have "(n, s', e', err) \<in> set R \<or> (n, s', e', err) = (name, s, el, None)"
          by auto
        then show ?thesis using True e s el by blast
      next
        assume "err = None \<and> cache_hit cache n \<and>
          (\<exists>entry. map_of cache n = Some entry \<and> py_item entry ''svg'' = Inr s'
                   \<and> py_item entry ''elapsed'' = Inr e')"
        then show ?thesis by blast
      qed
    qed
    show ?thesis using A B by blast
  next
    case False
    then have "partition_models cache (p # rest) R T
               = partition_models cache rest R (AList.update name mid T)
             \<or> (\<exists>x. partition_models cache (p # rest) R T = Inl x)"
      by (auto simp: cache_hit_def p split: option.splits sum.splits)
    with Cons.prems(1) have
      "partition_models cache rest R (AList.update name mid T) = Inr (R', T')"
      by auto
    from Cons.IH [OF this d disj] False p show ?thesis by simp
  qed
qed

lemma partition_total:
  "(\<forall>entry\<in>snd ` set cache. entry_ok entry) \<Longrightarrow>
   \<exists>R' T'. partition_models cache ms R T = Inr (R', T')"
proof (induction ms arbitrary: R T)
  case Nil
  then show ?case by simp
next
  case (Cons p rest)
  obtain name mid where p: "p = (name, mid)" by (cases p)
  show ?case
  proof (cases "map_of cache name")
    case None
    then show ?thesis using Cons.IH [OF Cons.prems] p by simp
  next
    case (Some entry)
    then have "entry \<in> snd ` set cache" by (force dest: map_of_SomeD)
    with Cons.prems have "entry_ok entry" by blast
    then obtain kvs s e where "entry = PDict kvs" "map_of kvs ''svg'' = Some (PStr s)"
      "map_of kvs ''elapsed'' = Some (PNum e)"
      by (cases entry) (auto split: option.splits pyval.splits)
    then show ?thesis using Cons.IH [OF Cons.prems] p Some by simp
  qed
qed

section \<open>Lemmas about calls, dispatch and collection\<close>

subsection \<open>One call\<close>

lemma call_model_content:
  "outcome (fst (urlopen key mid net)) = Content content \<Longrightarrow>
   fst (call_model key name mid net)
   = (case extract_svg content of
        Some svg \<Rightarrow> Inr (name, Some svg, took (fst (urlopen key mid net)), None)
      | None \<Rightarrow> Inr (name, None, took (fst (urlopen key mid net)),
                     Some ''No <svg> tag found in response''))"
  by (simp add: call_model_def Let_def split_beta)

lemma canned_reply [simp]:
  "outcome (fst (urlopen key mid (canned r))) = r"
  "took (fst (urlopen key mid (canned r))) = 2"
  by (simp_all add: urlopen_def canned_def)

lemma call_model_net:
  "snd (call_model key name mid nw) = nw\<lparr>sent := sent nw @ [(key, mid)]\<rparr>"
  by (simp add: call_model_def urlopen_def Let_def split_beta)

lemma call_model_ret:
  assumes "fst (call_model key name mid nw) = Inr (n, out, el, err)"
  shows "n = name \<and> (out = None) \<noteq> (err = None)"
proof (cases "outcome (fst (urlopen key mid nw))")
  case (Content answer)
  show ?thesis
  proof (cases "extract_svg answer")
    case None
    with Content have "fst (call_model key name mid nw)
        = Inr (name, None, took (fst (urlopen key mid nw)), Some ''No <svg> tag found in response'')"
      by (simp add: call_model_def Let_def split_beta)
    with assms have "n = name" "out = None" "err = Some ''No <svg> tag found in response''"
      by simp_all
    then show ?thesis by simp
  next
    case (Some a)
    with Content have "fst (call_model key name mid nw)
        = Inr (name, Some a, took (fst (urlopen key mid nw)), None)"
      by (simp add: call_model_def Let_def split_beta)
    with assms have "n = name" "out = Some a" "err = None"
      by simp_all
    then show ?thesis by simp
  qed
next
  case (HTTPError code fp)
  with assms show ?thesis
    by (cases fp) (auto simp: call_model_def Let_def split_beta read_body_def)
next
  case (Failure msg)
  with assms show ?thesis
    by (auto simp: call_model_def Let_def split_beta)
qed

lemma call_model_raise:
  assumes "fst (call_model key name mid nw) = Inl e"
  shows "\<exists>code. outcome (fst (urlopen key mid nw)) = HTTPError code Unreadable"
proof (cases "outcome (fst (urlopen key mid nw))")
  case (Content answer)
  with assms show ?thesis
    by (cases "extract_svg answer")
       (auto simp: call_model_def Let_def split_beta)
next
  case (HTTPError code fp)
  with assms show ?thesis
    by (cases fp) (auto simp: call_model_def Let_def split_beta read_body_def)
next
  case (Failure msg)
  with assms show ?thesis
    by (auto simp: call_model_def Let_def split_beta)
qed

subsection \<open>The pool\<close>

lemma returned_of_Nil [simp]: "returned_of [] = []"
  by (simp add: returned_of_def)

lemma returned_of_Inl [simp]: "returned_of (Inl x # fs) = returned_of fs"
  by (simp add: returned_of_def)

lemma returned_of_Inr [simp]: "returned_of (Inr r # fs) = r # returned_of fs"
  by (simp add: returned_of_def)

lemma returned_of_filter: "returned_of fs = map projr (filter (\<lambda>f. \<not> isl f) fs)"
proof (induction fs)
  case Nil
  then show ?case by simp
next
  case (Cons f fs)
  then show ?case by (cases f) simp_all
qed

lemma returned_of_mset:
  "mset xs = mset ys \<Longrightarrow> mset (returned_of xs) = mset (returned_of ys)"
proof -
  assume a: "mset xs = mset ys"
  have "mset (returned_of xs) = image_mset projr (filter_mset (\<lambda>f. \<not> isl f) (mset xs))"
    by (simp add: returned_of_filter)
  also have "\<dots> = image_mset projr (filter_mset (\<lambda>f. \<not> isl f) (mset ys))"
    by (simp only: a)
  also have "\<dots> = mset (returned_of ys)"
    by (simp add: returned_of_filter)
  finally show ?thesis .
qed

lemma returned_of_all_Inr:
  "(\<forall>f\<in>set fs. \<not> isl f) \<Longrightarrow> length (returned_of fs) = length fs"
  by (simp add: returned_of_filter)


lemma dispatch_respond: "respond (snd (dispatch key T nw)) = respond nw"
proof (induction T arbitrary: nw)
  case Nil
  then show ?case by simp
next
  case (Cons p T)
  obtain n m where p: "p = (n, m)" by (cases p)
  have "respond (snd (dispatch key (p # T) nw))
        = respond (snd (dispatch key T (snd (call_model key n m nw))))"
    by (simp add: p split_beta Let_def)
  also have "\<dots> = respond (snd (call_model key n m nw))"
    by (rule Cons.IH)
  also have "\<dots> = respond nw"
    by (simp add: call_model_net)
  finally show ?case .
qed

lemma dispatch_length: "length (fst (dispatch key T nw)) = length T"
proof (induction T arbitrary: nw)
  case Nil
  then show ?case by simp
next
  case (Cons p T)
  obtain n m where p: "p = (n, m)" by (cases p)
  show ?case using Cons.IH by (simp add: p split_beta Let_def)
qed

lemma dispatch_names:
  "subseq (map fst (returned_of (fst (dispatch key T nw)))) (map fst T)"
proof (induction T arbitrary: nw)
  case Nil
  then show ?case by simp
next
  case (Cons p T)
  obtain n m where p: "p = (n, m)" by (cases p)
  let ?f = "fst (call_model key n m nw)"
  let ?rest = "fst (dispatch key T (snd (call_model key n m nw)))"
  have d: "fst (dispatch key (p # T) nw) = ?f # ?rest"
    by (simp add: p split_beta Let_def)
  have ih: "subseq (map fst (returned_of ?rest)) (map fst T)" by (rule Cons.IH)
  show ?case
  proof (cases ?f)
    case (Inl x)
    then show ?thesis using list_emb_Cons [OF ih, of n] d p by simp
  next
    case (Inr r)
    obtain n' out el err where r: "r = (n', out, el, err)" by (cases r)
    from call_model_ret [of key n m nw n' out el err] Inr r have "n' = n" by simp
    then show ?thesis using ih d p Inr r by simp
  qed
qed

lemma dispatch_names_all:
  "(\<forall>f\<in>set (fst (dispatch key T nw)). \<not> isl f) \<Longrightarrow>
   map fst (returned_of (fst (dispatch key T nw))) = map fst T"
proof (induction T arbitrary: nw)
  case Nil
  then show ?case by simp
next
  case (Cons p T)
  obtain n m where p: "p = (n, m)" by (cases p)
  let ?f = "fst (call_model key n m nw)"
  let ?rest = "fst (dispatch key T (snd (call_model key n m nw)))"
  have d: "fst (dispatch key (p # T) nw) = ?f # ?rest"
    by (simp add: p split_beta Let_def)
  from Cons.prems d have a: "\<not> isl ?f" and b: "\<forall>f\<in>set ?rest. \<not> isl f" by simp_all
  from a obtain r where Inr: "?f = Inr r" by (cases ?f) auto
  obtain n' out el err where r: "r = (n', out, el, err)" by (cases r)
  from call_model_ret [of key n m nw n' out el err] Inr r have "n' = n" by simp
  then show ?case using Cons.IH [OF b] d p Inr r by simp
qed

lemma dispatch_exactly_one:
  "(n, out, el, err) \<in> set (returned_of (fst (dispatch key T nw))) \<Longrightarrow>
   (out = None) \<noteq> (err = None)"
proof (induction T arbitrary: nw)
  case Nil
  then show ?case by simp
next
  case (Cons p T)
  obtain n0 m where p: "p = (n0, m)" by (cases p)
  let ?f = "fst (call_model key n0 m nw)"
  let ?rest = "fst (dispatch key T (snd (call_model key n0 m nw)))"
  have d: "fst (dispatch key (p # T) nw) = ?f # ?rest"
    by (simp add: p split_beta Let_def)
  show ?case
  proof (cases ?f)
    case (Inl x)
    with Cons.prems d have "(n, out, el, err) \<in> set (returned_of ?rest)" by simp
    then show ?thesis by (rule Cons.IH)
  next
    case (Inr r)
    with Cons.prems d have "r = (n, out, el, err) \<or> (n, out, el, err) \<in> set (returned_of ?rest)"
      by auto
    then show ?thesis
    proof
      assume "r = (n, out, el, err)"
      with Inr call_model_ret [of key n0 m nw n out el err] show ?thesis by simp
    next
      assume "(n, out, el, err) \<in> set (returned_of ?rest)"
      then show ?thesis by (rule Cons.IH)
    qed
  qed
qed

lemma dispatch_total:
  "(\<forall>m k code. outcome (respond nw m k) \<noteq> HTTPError code Unreadable) \<Longrightarrow>
   \<forall>f\<in>set (fst (dispatch key T nw)). \<not> isl f"
proof (induction T arbitrary: nw)
  case Nil
  then show ?case by simp
next
  case (Cons p T)
  obtain n m where p: "p = (n, m)" by (cases p)
  let ?f = "fst (call_model key n m nw)"
  let ?nw = "snd (call_model key n m nw)"
  have d: "fst (dispatch key (p # T) nw) = ?f # fst (dispatch key T ?nw)"
    by (simp add: p split_beta Let_def)
  have "respond ?nw = respond nw" by (simp add: call_model_net)
  with Cons.prems have "\<forall>m k code. outcome (respond ?nw m k) \<noteq> HTTPError code Unreadable"
    by simp
  then have ih: "\<forall>f\<in>set (fst (dispatch key T ?nw)). \<not> isl f" by (rule Cons.IH)
  have "\<not> isl ?f"
  proof
    assume "isl ?f"
    then obtain e where "?f = Inl e" by (cases ?f) auto
    from call_model_raise [OF this] Cons.prems show False
      by (auto simp: urlopen_def)
  qed
  with ih d show ?case by simp
qed

lemma as_completed_mset: "mset (as_completed ps xs) = mset xs"
proof (induction ps xs rule: as_completed.induct)
  case (1 ps)
  then show ?case by simp
next
  case (2 x xs)
  then show ?case by simp
next
  case (3 p ps x xs)
  define i where "i = p mod length (x # xs)"
  have i: "i < length (x # xs)" unfolding i_def by simp
  have "mset (as_completed (p # ps) (x # xs))
        = add_mset ((x # xs) ! i) (mset (as_completed ps (take i (x # xs) @ drop (Suc i) (x # xs))))"
    by (simp add: i_def Let_def del: length_Cons)
  also have "\<dots> = add_mset ((x # xs) ! i) (mset (take i (x # xs) @ drop (Suc i) (x # xs)))"
    using "3.IH" [of i] by (simp add: i_def)
  also have "\<dots> = mset (take i (x # xs) @ (x # xs) ! i # drop (Suc i) (x # xs))"
    by simp
  also have "\<dots> = mset (x # xs)"
    using id_take_nth_drop [OF i] by simp
  finally show ?case .
qed

subsection \<open>Folding the results into the dictionaries\<close>

lemma collect_all_Inr:
  "collect fs R C = Inr (R', C') \<Longrightarrow> \<forall>f\<in>set fs. \<not> isl f"
proof (induction fs arbitrary: R C)
  case Nil
  then show ?case by simp
next
  case (Cons f fs)
  show ?case
  proof (cases f)
    case (Inl x)
    with Cons.prems show ?thesis by simp
  next
    case (Inr r)
    obtain n out el err where r: "r = (n, out, el, err)" by (cases r)
    from Cons.prems Inr r Cons.IH show ?thesis by auto
  qed
qed

lemma collect_total:
  "(\<forall>f\<in>set fs. \<not> isl f) \<Longrightarrow> \<exists>R' C'. collect fs R C = Inr (R', C')"
proof (induction fs arbitrary: R C)
  case Nil
  then show ?case by simp
next
  case (Cons f fs)
  from Cons.prems obtain r where Inr: "f = Inr r" by (cases f) auto
  obtain n out el err where r: "r = (n, out, el, err)" by (cases r)
  from Cons.prems have "\<forall>f\<in>set fs. \<not> isl f" by simp
  from Cons.IH [OF this] show ?case by (simp add: Inr r)
qed

lemma collect_results:
  "collect fs R C = Inr (R', C') \<Longrightarrow> distinct (map fst (returned_of fs)) \<Longrightarrow>
   fst ` set (returned_of fs) \<inter> fst ` set R = {} \<Longrightarrow>
   R' = R @ map to_result (returned_of fs)"
proof (induction fs arbitrary: R C)
  case Nil
  then show ?case by simp
next
  case (Cons f fs)
  show ?case
  proof (cases f)
    case (Inl x)
    with Cons.prems show ?thesis by simp
  next
    case (Inr r)
    obtain n out el err where r: "r = (n, out, el, err)" by (cases r)
    have nR: "n \<notin> fst ` set R" using Cons.prems(3) Inr r by auto
    have u: "AList.update n (of_opt out, PNum el, err) R = R @ [to_result r]"
      using update_new [OF nR] by (simp add: to_result_def r)
    from Cons.prems(1) Inr r obtain C1 where
      rec: "collect fs (AList.update n (of_opt out, PNum el, err) R) C1 = Inr (R', C')"
      by auto
    have d: "distinct (map fst (returned_of fs))" using Cons.prems(2) Inr by simp
    have "n \<notin> fst ` set (returned_of fs)" using Cons.prems(2) Inr r by auto
    then have disj: "fst ` set (returned_of fs) \<inter> fst ` set (R @ [to_result r]) = {}"
      using Cons.prems(3) Inr by (auto simp: to_result_def r)
    from Cons.IH [OF rec [unfolded u] d disj] Inr show ?thesis by simp
  qed
qed

lemma collect_cache_other:
  "collect fs R C = Inr (R', C') \<Longrightarrow> n \<notin> fst ` set (returned_of fs) \<Longrightarrow>
   map_of C' n = map_of C n"
proof (induction fs arbitrary: R C)
  case Nil
  then show ?case by simp
next
  case (Cons f fs)
  show ?case
  proof (cases f)
    case (Inl x)
    with Cons.prems show ?thesis by simp
  next
    case (Inr r)
    obtain n0 out el err where r: "r = (n0, out, el, err)" by (cases r)
    from Cons.prems(2) Inr r have ne: "n0 \<noteq> n" and ni: "n \<notin> fst ` set (returned_of fs)"
      by auto
    from Cons.prems(1) Inr r obtain R1 C1 where
      rec: "collect fs R1 C1 = Inr (R', C')" and
      c1: "C1 = C \<or> (\<exists>v. C1 = AList.update n0 v C)"
      by (auto split: if_splits)
    from c1 ne have "map_of C1 n = map_of C n"
      by (auto simp: AList.update_conv')
    with Cons.IH [OF rec ni] show ?thesis by simp
  qed
qed

lemma collect_cache_name:
  "collect fs R C = Inr (R', C') \<Longrightarrow> distinct (map fst (returned_of fs)) \<Longrightarrow>
   (n, out, el, err) \<in> set (returned_of fs) \<Longrightarrow>
   map_of C' n = (if truthy (of_opt out) \<and> \<not> truthy (of_opt err)
                  then Some (PDict [(''svg'', of_opt out), (''elapsed'', PNum el)])
                  else map_of C n)"
proof (induction fs arbitrary: R C)
  case Nil
  then show ?case by simp
next
  case (Cons f fs)
  show ?case
  proof (cases f)
    case (Inl x)
    with Cons.prems show ?thesis by simp
  next
    case (Inr r)
    obtain n0 out0 el0 err0 where r: "r = (n0, out0, el0, err0)" by (cases r)
    have d: "distinct (map fst (returned_of fs))" using Cons.prems(2) Inr by simp
    have n0: "n0 \<notin> fst ` set (returned_of fs)" using Cons.prems(2) Inr r by auto
    let ?C1 = "if truthy (of_opt out0) \<and> \<not> truthy (of_opt err0)
               then AList.update n0 (PDict [(''svg'', of_opt out0), (''elapsed'', PNum el0)]) C
               else C"
    from Cons.prems(1) Inr r obtain R1 where
      rec: "collect fs R1 ?C1 = Inr (R', C')"
      by auto
    from Cons.prems(3) Inr r
    have "(n, out, el, err) = (n0, out0, el0, err0) \<or> (n, out, el, err) \<in> set (returned_of fs)"
      by auto
    then show ?thesis
    proof
      assume eq: "(n, out, el, err) = (n0, out0, el0, err0)"
      have "map_of C' n0 = map_of ?C1 n0" by (rule collect_cache_other [OF rec n0])
      with eq show ?thesis by (simp add: AList.update_conv')
    next
      assume m: "(n, out, el, err) \<in> set (returned_of fs)"
      then have "n \<in> fst ` set (returned_of fs)" by force
      with n0 have ne: "n \<noteq> n0" by blast
      have "map_of ?C1 n = map_of C n" using ne by (simp add: AList.update_conv')
      with Cons.IH [OF rec d m] show ?thesis by simp
    qed
  qed
qed

section \<open>Lemmas about fence stripping\<close>

lemma tick_run_simps [simp]:
  "tick_run [] = 0"
  "tick_run (c # cs) = (if c = CHR 0x60 then Suc (tick_run cs) else 0)"
  by (simp_all add: tick_run_def)

lemma tick_run_replace: "tick_run (replace_ticks s) = tick_run s mod 3"
proof (induction s rule: replace_ticks.induct)
  case (1 a b c cs)
  show ?case
  proof (cases "a = CHR 0x60 \<and> b = CHR 0x60 \<and> c = CHR 0x60")
    case True
    with 1 show ?thesis by simp
  next
    case False
    with 1 show ?thesis by (auto split: if_splits)
  qed
qed auto

lemma sublist_ticks_Cons:
  "sublist ''```'' (a # s) \<longleftrightarrow> (a = CHR 0x60 \<and> 2 \<le> tick_run s) \<or> sublist ''```'' s"
proof -
  have "prefix ''```'' (a # s) \<longleftrightarrow> a = CHR 0x60 \<and> 2 \<le> tick_run s"
    by (cases s; cases "tl s") (auto simp: prefix_def)
  then show ?thesis by (simp add: sublist_Cons_right)
qed

lemma no_ticks_replace: "\<not> sublist ''```'' (replace_ticks s)"
proof (induction s rule: replace_ticks.induct)
  case (1 a b c cs)
  show ?case
  proof (cases "a = CHR 0x60 \<and> b = CHR 0x60 \<and> c = CHR 0x60")
    case True
    with 1 show ?thesis by simp
  next
    case False
    have "tick_run (replace_ticks (b # c # cs)) = tick_run (b # c # cs) mod 3"
      by (rule tick_run_replace)
    with False 1 show ?thesis
      by (auto simp: sublist_ticks_Cons split: if_splits)
  qed
qed (simp_all add: sublist_ticks_Cons)

lemma replace_ticks_tickfree: "CHR 0x60 \<notin> set s \<Longrightarrow> replace_ticks s = s"
  by (induction s rule: replace_ticks.induct) auto

lemma re_sub_fence_tickfree: "CHR 0x60 \<notin> set s \<Longrightarrow> re_sub_fence s = s"
  by (induction s) (auto simp: prefix_def)

lemma re_sub_fence_append:
  "CHR 0x60 \<notin> set a \<Longrightarrow> re_sub_fence (a @ ''```'' @ r) = a @ re_sub_fence (fence_tail r)"
  by (induction a) (auto simp: prefix_def)

lemma dropWhile_space_fence:
  "dropWhile is_space (b @ CHR 0x60 # t) = dropWhile is_space b @ CHR 0x60 # t"
proof -
  have "\<not> is_space (CHR 0x60)" by (simp add: is_space_def)
  then show ?thesis by (induction b) auto
qed

lemma opt_newline_nonspace:
  "(s = [] \<or> \<not> is_space (hd s)) \<Longrightarrow> opt_newline s = s"
proof (cases s)
  case Nil
  then show ?thesis by (simp add: opt_newline_def)
next
  case (Cons c cs)
  assume "s = [] \<or> \<not> is_space (hd s)"
  with Cons have "\<not> is_space c" by simp
  moreover have "is_space (CHR 0x0A)" by (simp add: is_space_def)
  ultimately have "c \<noteq> CHR 0x0A" by auto
  with Cons show ?thesis by (simp add: opt_newline_def)
qed

lemma dropWhile_hd: "dropWhile P s = [] \<or> \<not> P (hd (dropWhile P s))"
  by (induction s) auto

lemma fence_tail_open:
  assumes "lang \<in> {[], ''svg'', ''xml'', ''html''}"
  shows "fence_tail (lang @ CHR 0x0A # b @ CHR 0x60 # t) = dropWhile is_space b @ CHR 0x60 # t"
proof -
  have sp: "is_space (CHR 0x0A)" by (simp add: is_space_def)
  have nt: "\<not> is_space (CHR 0x60)" by (simp add: is_space_def)
  have "opt_lang (lang @ CHR 0x0A # b @ CHR 0x60 # t) = CHR 0x0A # b @ CHR 0x60 # t"
    using assms by (auto simp: opt_lang_def prefix_def)
  then have "dropWhile is_space (opt_lang (lang @ CHR 0x0A # b @ CHR 0x60 # t))
             = dropWhile is_space b @ CHR 0x60 # t"
    using sp by (simp add: dropWhile_space_fence)
  moreover have "opt_newline (dropWhile is_space b @ CHR 0x60 # t) = dropWhile is_space b @ CHR 0x60 # t"
  proof (rule opt_newline_nonspace)
    show "dropWhile is_space b @ CHR 0x60 # t = [] \<or> \<not> is_space (hd (dropWhile is_space b @ CHR 0x60 # t))"
    proof (cases "dropWhile is_space b")
      case Nil
      have "hd (dropWhile is_space b @ CHR 0x60 # t) = CHR 0x60"
        by (simp only: Nil append_Nil list.sel)
      with nt show ?thesis by simp
    next
      case (Cons x xs)
      have "dropWhile is_space b \<noteq> []" by (simp only: Cons) simp
      then have "\<not> is_space (hd (dropWhile is_space b))"
        by (rule hd_dropWhile)
      moreover have "hd (dropWhile is_space b @ CHR 0x60 # t) = hd (dropWhile is_space b)"
        by (simp only: Cons append_Cons list.sel)
      ultimately show ?thesis by simp
    qed
  qed
  ultimately show ?thesis by (simp add: fence_tail_def)
qed

lemma fence_tail_close:
  assumes "c = [] \<or> is_space (hd c)"
  shows "fence_tail c = dropWhile is_space c"
proof -
  have "opt_lang c = c"
  proof (cases c)
    case Nil
    then show ?thesis by (simp add: opt_lang_def)
  next
    case (Cons x xs)
    with assms have "is_space x" by simp
    then have "x \<noteq> CHR ''s'' \<and> x \<noteq> CHR ''x'' \<and> x \<noteq> CHR ''h''"
      by (auto simp: is_space_def)
    with Cons show ?thesis by (auto simp: opt_lang_def prefix_def)
  qed
  moreover have "opt_newline (dropWhile is_space c) = dropWhile is_space c"
    by (rule opt_newline_nonspace) (rule dropWhile_hd)
  ultimately show ?thesis by (simp add: fence_tail_def)
qed

lemma strip_fences_tickfree: "CHR 0x60 \<notin> set s \<Longrightarrow> strip_fences s = s"
  by (simp add: strip_fences_def re_sub_fence_tickfree replace_ticks_tickfree)

lemma strip_fences_block:
  assumes a: "CHR 0x60 \<notin> set a" and b: "CHR 0x60 \<notin> set b" and c: "CHR 0x60 \<notin> set c"
    and l: "lang \<in> {[], ''svg'', ''xml'', ''html''}"
    and s: "c = [] \<or> is_space (hd c)"
  shows "strip_fences (a @ ''```'' @ lang @ [CHR 0x0A] @ b @ ''```'' @ c)
         = a @ dropWhile is_space b @ dropWhile is_space c"
proof -
  have b': "CHR 0x60 \<notin> set (dropWhile is_space b)"
    using b set_dropWhileD by fastforce
  have c': "CHR 0x60 \<notin> set (dropWhile is_space c)"
    using c set_dropWhileD by fastforce
  have "re_sub_fence (a @ ''```'' @ lang @ [CHR 0x0A] @ b @ ''```'' @ c)
        = a @ re_sub_fence (fence_tail (lang @ CHR 0x0A # b @ CHR 0x60 # ''``'' @ c))"
    using re_sub_fence_append [OF a, of "lang @ [CHR 0x0A] @ b @ ''```'' @ c"] by simp
  also have "fence_tail (lang @ CHR 0x0A # b @ CHR 0x60 # ''``'' @ c)
             = dropWhile is_space b @ ''```'' @ c"
    using fence_tail_open [OF l, of b "''``'' @ c"] by simp
  also have "re_sub_fence (dropWhile is_space b @ ''```'' @ c)
             = dropWhile is_space b @ re_sub_fence (fence_tail c)"
    by (rule re_sub_fence_append [OF b'])
  also have "fence_tail c = dropWhile is_space c"
    by (rule fence_tail_close [OF s])
  also have "re_sub_fence (dropWhile is_space c) = dropWhile is_space c"
    by (rule re_sub_fence_tickfree [OF c'])
  finally have "re_sub_fence (a @ ''```'' @ lang @ [CHR 0x0A] @ b @ ''```'' @ c)
                = a @ dropWhile is_space b @ dropWhile is_space c" .
  moreover have "CHR 0x60 \<notin> set (a @ dropWhile is_space b @ dropWhile is_space c)"
    using a b' c' by simp
  then have "replace_ticks (a @ dropWhile is_space b @ dropWhile is_space c)
             = a @ dropWhile is_space b @ dropWhile is_space c"
    by (rule replace_ticks_tickfree)
  ultimately show ?thesis
    by (simp only: strip_fences_def)
qed

section \<open>Lemmas about the rendering of a status code\<close>

lemma digit_char:
  assumes "d < 10"
  shows "is_digit (''0123456789'' ! d) \<and> digit_value (''0123456789'' ! d) = d
         \<and> (''0123456789'' ! d = CHR ''0'' \<longleftrightarrow> d = 0)"
proof -
  from assms have "d = 0 \<or> d = 1 \<or> d = 2 \<or> d = 3 \<or> d = 4 \<or> d = 5 \<or> d = 6 \<or> d = 7
                   \<or> d = 8 \<or> d = 9"
    by arith
  then show ?thesis
    by (elim disjE) (simp_all add: is_digit_def digit_value_def)
qed

lemma decimal_value_snoc:
  "decimal_value (ds @ [c]) = 10 * decimal_value ds + digit_value c"
  by (simp add: decimal_value_def)

lemma str_nat_nonempty: "str_nat n \<noteq> []"
  by (subst str_nat.simps) simp

lemma str_nat_digits: "list_all is_digit (str_nat n)"
proof (induction n rule: str_nat.induct)
  case (1 n)
  show ?case
  proof (cases "n < 10")
    case True
    then show ?thesis using digit_char [of n] by (subst str_nat.simps) simp
  next
    case False
    then show ?thesis using 1 digit_char [of "n mod 10"] by (subst str_nat.simps) simp
  qed
qed

lemma str_nat_value: "decimal_value (str_nat n) = n"
proof (induction n rule: str_nat.induct)
  case (1 n)
  show ?case
  proof (cases "n < 10")
    case True
    then show ?thesis
      using digit_char [of n] by (subst str_nat.simps) (simp add: decimal_value_def)
  next
    case False
    then have "decimal_value (str_nat (n div 10)) = n div 10" using 1 by simp
    with False show ?thesis
      using digit_char [of "n mod 10"]
      by (subst str_nat.simps) (simp add: decimal_value_snoc)
  qed
qed

lemma str_nat_hd: "0 < n \<Longrightarrow> hd (str_nat n) \<noteq> CHR ''0''"
proof (induction n rule: str_nat.induct)
  case (1 n)
  show ?case
  proof (cases "n < 10")
    case True
    with 1(2) show ?thesis using digit_char [of n] by (subst str_nat.simps) simp
  next
    case False
    then have "0 < n div 10" by simp
    with False 1 have "hd (str_nat (n div 10)) \<noteq> CHR ''0''" by simp
    with False show ?thesis
      using str_nat_nonempty [of "n div 10"] by (subst str_nat.simps) simp
  qed
qed

lemma str_nat_decimal: "decimal_of n (str_nat n)"
proof -
  have "str_nat 0 = ''0''" by (subst str_nat.simps) simp
  then show ?thesis
    using str_nat_nonempty [of n] str_nat_digits [of n] str_nat_value [of n] str_nat_hd [of n]
    by (simp add: decimal_of_def)
qed

section \<open>Lemmas about a run\<close>

lemma aborted_fields [simp]:
  "exit_status (aborted w) = 1" "saved (aborted w) = []" "net_after (aborted w) = internet w"
  "attempted (aborted w) = []" "returned (aborted w) = []" "merged (aborted w) = []"
  "index_html (aborted w) = None" "console (aborted w) = []"
  by (simp_all add: aborted_def)

lemma finish_fields [simp]:
  "saved (finish r R) = saved r" "attempted (finish r R) = attempted r"
  "returned (finish r R) = returned r" "net_after (finish r R) = net_after r"
  by (simp_all add: finish_def split: sum.splits)

lemma finish_html:
  "index_html (finish r R)
   = (case build_html R model_dates of Inl x \<Rightarrow> index_html r | Inr h \<Rightarrow> Some h)"
  by (simp add: finish_def split: sum.splits)

lemma finish_merged:
  "merged (finish r R) = R"
  by (simp add: finish_def split: sum.splits)

lemma finish_exit:
  "exit_status r = 1 \<Longrightarrow>
   exit_status (finish r R) = 0
   \<longleftrightarrow> \<not> isl (build_html R model_dates) \<and> \<not> isl (summary_lines R model_map)"
  by (simp add: finish_def split: sum.splits)

lemma dispatch_Nil_iff: "fst (dispatch key T nw) = [] \<longleftrightarrow> T = []"
  using dispatch_length [of key T nw] by (metis length_0_conv)

text \<open>The run, once the credential, the cache and the partition are known.\<close>

lemma program_run:
  assumes "API_KEY (env_key w) (secrets_out w) = Inr key"
    and "load_cache (cache_file w) = Inr cache"
    and "partition_models cache model_map [] [] = Inr (R, T)"
  shows "program w =
     (if T \<noteq> [] then
        (case collect (as_completed (picks w) (fst (dispatch key T (internet w)))) R cache of
           Inl x \<Rightarrow> (aborted w)\<lparr>net_after := snd (dispatch key T (internet w)),
                       attempted := map fst T,
                       returned := returned_of (fst (dispatch key T (internet w)))\<rparr>
         | Inr (R', C') \<Rightarrow>
             finish ((aborted w)\<lparr>net_after := snd (dispatch key T (internet w)),
                       attempted := map fst T,
                       returned := returned_of (fst (dispatch key T (internet w))),
                       saved := [C']\<rparr>) R')
      else finish (aborted w) R)"
  using assms by (simp add: program_def main_def Let_def split_beta split: sum.splits prod.splits)

lemma program_attempted:
  assumes "API_KEY (env_key w) (secrets_out w) = Inr key"
    and "load_cache (cache_file w) = Inr cache"
    and "partition_models cache model_map [] [] = Inr (R, T)"
  shows "attempted (program w) = map fst T"
    and "net_after (program w) = snd (dispatch key T (internet w))"
    and "returned (program w) = returned_of (fst (dispatch key T (internet w)))"
  using program_run [OF assms]
  by (auto split: sum.splits prod.splits)

lemma program_not_started:
  assumes "isl (API_KEY (env_key w) (secrets_out w)) \<or> isl (load_cache (cache_file w))
     \<or> (\<exists>cache. load_cache (cache_file w) = Inr cache \<and> isl (partition_models cache model_map [] []))"
  shows "program w = aborted w"
  using assms by (auto simp: program_def main_def split: sum.splits)


section \<open>Lemmas about cache hits and the models to call\<close>

lemma requests_to_append [simp]:
  "requests_to mid (xs @ ys) = requests_to mid xs + requests_to mid ys"
  by (simp add: requests_to_def)


lemma to_call_filter:
  assumes "partition_models cache model_map [] [] = Inr (R, T)"
  shows "T = filter (\<lambda>(n, m). \<not> cache_hit cache n) model_map"
  using partition_to_call [OF assms distinct_model_names] by simp

lemma cached_names:
  assumes "partition_models cache model_map [] [] = Inr (R, T)"
  shows "map fst R = map fst (filter (\<lambda>(n, m). cache_hit cache n) model_map)"
  using partition_results [OF assms distinct_model_names] by simp

lemma cached_entries:
  assumes "partition_models cache model_map [] [] = Inr (R, T)"
    and "(n, s, e, err) \<in> set R"
  shows "err = None \<and> cache_hit cache n \<and>
         (\<exists>entry. map_of cache n = Some entry \<and> py_item entry ''svg'' = Inr s
                  \<and> py_item entry ''elapsed'' = Inr e)"
  using partition_results [OF assms(1) distinct_model_names] assms(2) by auto

lemma distinct_filter_fst:
  "distinct (map fst xs) \<Longrightarrow> distinct (map fst (filter P xs))"
  by (rule distinct_map_filter)




section \<open>Lemmas about the report\<close>

subsection \<open>Cards and sections\<close>

lemma cards_html_names:
  "cards_html R D names = Inr cs \<Longrightarrow>
   map card_name cs = filter (\<lambda>n. map_of R n \<noteq> None) names"
proof (induction names arbitrary: cs)
  case Nil
  then show ?case by simp
next
  case (Cons n names)
  show ?case
  proof (cases "map_of R n")
    case None
    with Cons show ?thesis by simp
  next
    case (Some r)
    obtain svg el err where r: "r = (svg, el, err)" by (cases r)
    from Cons.prems Some r obtain t cs' where
      "format_1f el = Inr t" "cards_html R D names = Inr cs'"
      "cs = \<lparr>card_name = n, card_date = (case map_of D n of None \<Rightarrow> [] | Some d \<Rightarrow> d),
              card_elapsed = t,
              card_content = (case err of None \<Rightarrow> SvgPanel svg
                              | Some e \<Rightarrow> if e \<noteq> [] then ErrorPanel e else SvgPanel svg)\<rparr> # cs'"
      by (auto simp: Let_def split: sum.splits)
    with Cons.IH [of cs'] Some r show ?thesis by simp
  qed
qed

lemma cards_html_content:
  "cards_html R D names = Inr cs \<Longrightarrow> c \<in> set cs \<Longrightarrow>
   \<exists>svg el err. map_of R (card_name c) = Some (svg, el, err)
     \<and> format_1f el = Inr (card_elapsed c)
     \<and> card_content c = (case err of None \<Rightarrow> SvgPanel svg
                          | Some e \<Rightarrow> if e \<noteq> [] then ErrorPanel e else SvgPanel svg)"
proof (induction names arbitrary: cs)
  case Nil
  then show ?case by simp
next
  case (Cons n names)
  show ?case
  proof (cases "map_of R n")
    case None
    with Cons show ?thesis by simp
  next
    case (Some r)
    obtain svg el err where r: "r = (svg, el, err)" by (cases r)
    from Cons.prems(1) Some r obtain t cs' where *:
      "format_1f el = Inr t" "cards_html R D names = Inr cs'"
      "cs = \<lparr>card_name = n, card_date = (case map_of D n of None \<Rightarrow> [] | Some d \<Rightarrow> d),
              card_elapsed = t,
              card_content = (case err of None \<Rightarrow> SvgPanel svg
                              | Some e \<Rightarrow> if e \<noteq> [] then ErrorPanel e else SvgPanel svg)\<rparr> # cs'"
      by (auto simp: Let_def split: sum.splits)
    show ?thesis
    proof (cases "c \<in> set cs'")
      case True
      with Cons.IH [OF *(2)] show ?thesis by simp
    next
      case False
      with Cons.prems(2) *(3) have "c = \<lparr>card_name = n,
              card_date = (case map_of D n of None \<Rightarrow> [] | Some d \<Rightarrow> d),
              card_elapsed = t,
              card_content = (case err of None \<Rightarrow> SvgPanel svg
                              | Some e \<Rightarrow> if e \<noteq> [] then ErrorPanel e else SvgPanel svg)\<rparr>"
        by simp
      with Some r *(1) show ?thesis by simp
    qed
  qed
qed

lemma format_1f_numeric: "numeric v \<Longrightarrow> format_1f v = Inr v"
  by (cases v) simp_all

lemma cards_html_total:
  "(\<forall>n svg el err. map_of R n = Some (svg, el, err) \<longrightarrow> numeric el) \<Longrightarrow>
   \<exists>cs. cards_html R D names = Inr cs"
proof (induction names)
  case Nil
  then show ?case by simp
next
  case (Cons n names)
  then obtain cs where cs: "cards_html R D names = Inr cs" by blast
  show ?case
  proof (cases "map_of R n")
    case None
    with cs show ?thesis by simp
  next
    case (Some r)
    obtain svg el err where r: "r = (svg, el, err)" by (cases r)
    with Some Cons.prems have "numeric el" by blast
    then have "format_1f el = Inr el" by (rule format_1f_numeric)
    with Some r cs show ?thesis by (simp add: Let_def)
  qed
qed


lemma sections_html_content:
  "sections_html R D cats = Inr ss \<Longrightarrow> (c, cs) \<in> set ss \<Longrightarrow> x \<in> set cs \<Longrightarrow>
   \<exists>svg el err. map_of R (card_name x) = Some (svg, el, err)
     \<and> format_1f el = Inr (card_elapsed x)
     \<and> card_content x = (case err of None \<Rightarrow> SvgPanel svg
                          | Some e \<Rightarrow> if e \<noteq> [] then ErrorPanel e else SvgPanel svg)"
proof (induction cats arbitrary: ss)
  case Nil
  then show ?case by simp
next
  case (Cons cat cats)
  obtain c' names where cat: "cat = (c', names)" by (cases cat)
  from Cons.prems(1) cat obtain cs' ss' where *:
    "cards_html R D names = Inr cs'" "sections_html R D cats = Inr ss'" "ss = (c', cs') # ss'"
    by (auto split: sum.splits)
  show ?case
  proof (cases "(c, cs) \<in> set ss'")
    case True
    from Cons.IH [OF *(2) True Cons.prems(3)] show ?thesis .
  next
    case False
    with Cons.prems(2) *(3) have "cs = cs'" by simp
    with cards_html_content [OF *(1)] Cons.prems(3) show ?thesis by simp
  qed
qed

lemma sections_html_total:
  "(\<forall>n svg el err. map_of R n = Some (svg, el, err) \<longrightarrow> numeric el) \<Longrightarrow>
   \<exists>ss. sections_html R D cats = Inr ss"
proof (induction cats)
  case Nil
  then show ?case by simp
next
  case (Cons cat cats)
  obtain c names where cat: "cat = (c, names)" by (cases cat)
  from Cons obtain ss where "sections_html R D cats = Inr ss" by blast
  moreover from cards_html_total [OF Cons.prems] obtain cs where "cards_html R D names = Inr cs"
    by blast
  ultimately show ?case by (simp add: cat)
qed

subsection \<open>The report\<close>

lemma build_html_sections:
  "build_html R D = Inr rep \<Longrightarrow> sections_html R D CATEGORIES = Inr (rep_sections rep)"
  by (auto simp: build_html_def split: sum.splits)


lemma build_html_total:
  "(\<forall>n svg el err. map_of R n = Some (svg, el, err) \<longrightarrow> numeric el) \<Longrightarrow>
   \<exists>rep. build_html R D = Inr rep"
  using sections_html_total [of R D CATEGORIES] by (auto simp: build_html_def)

lemma summary_lines_total:
  "(\<forall>n svg el err. map_of R n = Some (svg, el, err) \<longrightarrow> numeric el) \<Longrightarrow>
   \<exists>ls. summary_lines R ms = Inr ls"
proof (induction ms)
  case Nil
  then show ?case by simp
next
  case (Cons p ms)
  obtain n m where p: "p = (n, m)" by (cases p)
  from Cons obtain ls where ls: "summary_lines R ms = Inr ls" by blast
  show ?case
  proof (cases "map_of R n")
    case None
    with ls p show ?thesis by simp
  next
    case (Some r)
    obtain svg el err where r: "r = (svg, el, err)" by (cases r)
    with Some Cons.prems have "numeric el" by blast
    then have "format_1f el = Inr el" by (rule format_1f_numeric)
    with Some r ls p show ?thesis by (simp add: Let_def)
  qed
qed

lemma category_names_distinct: "distinct (concat (map snd CATEGORIES))"
  by code_simp

lemma model_names_in_categories:
  "list_all (\<lambda>n. n \<in> set (concat (map snd CATEGORIES))) (map fst model_map)"
  by code_simp

lemma sections_html_cards:
  "sections_html R D cats = Inr ss \<Longrightarrow>
   map card_name (concat (map snd ss))
   = filter (\<lambda>n. map_of R n \<noteq> None) (concat (map snd cats))"
proof (induction cats arbitrary: ss)
  case Nil
  then show ?case by simp
next
  case (Cons cat cats)
  obtain c names where cat: "cat = (c, names)" by (cases cat)
  from Cons.prems cat obtain cs ss' where *:
    "cards_html R D names = Inr cs" "sections_html R D cats = Inr ss'" "ss = (c, cs) # ss'"
    by (auto split: sum.splits)
  from Cons.IH [OF *(2)] cards_html_names [OF *(1)] *(3) cat show ?case by simp
qed

lemma report_cards:
  "build_html R D = Inr rep \<Longrightarrow>
   map card_name (concat (map snd (rep_sections rep)))
   = filter (\<lambda>n. map_of R n \<noteq> None) (concat (map snd CATEGORIES))"
  by (rule sections_html_cards [OF build_html_sections])

lemma present_names_perm:
  assumes "distinct (map fst R)" and "distinct names" and "fst ` set R \<subseteq> set names"
  shows "mset (filter (\<lambda>n. map_of R n \<noteq> None) names) = mset (map fst R)"
proof -
  have "set (filter (\<lambda>n. map_of R n \<noteq> None) names) = set (map fst R)"
    using assms(3) by (auto simp: map_of_eq_None_iff)
  moreover have "distinct (filter (\<lambda>n. map_of R n \<noteq> None) names)"
    using assms(2) by simp
  ultimately show ?thesis
    using assms(1) set_eq_iff_mset_eq_distinct by blast
qed

lemma report_cards_perm:
  assumes "build_html R D = Inr rep" and "distinct (map fst R)"
    and "fst ` set R \<subseteq> set (concat (map snd CATEGORIES))"
  shows "mset (map card_name (concat (map snd (rep_sections rep)))) = mset (map fst R)"
  unfolding report_cards [OF assms(1)]
  by (rule present_names_perm [OF assms(2) category_names_distinct assms(3)])



section \<open>Lemmas about completed runs\<close>

subsection \<open>A run in which every call returns\<close>

lemma as_completed_set: "set (as_completed ps xs) = set xs"
  using as_completed_mset [of ps xs] by (metis set_mset_mset)

lemma completed_returned:
  "mset (returned_of (as_completed ps fs)) = mset (returned_of fs)"
  by (rule returned_of_mset) (rule as_completed_mset)

lemma to_call_names:
  assumes "partition_models cache model_map [] [] = Inr (R, T)"
  shows "distinct (map fst T)"
    and "fst ` set T \<inter> fst ` set R = {}"
    and "fst ` set T \<subseteq> fst ` set model_map"
    and "fst ` set R \<subseteq> fst ` set model_map"
proof -
  note T = to_call_filter [OF assms]
  note R = cached_names [OF assms]
  show "distinct (map fst T)"
    unfolding T using distinct_model_names by (rule distinct_map_filter)
  have r: "fst ` set R = set (map fst (filter (\<lambda>(n, m). cache_hit cache n) model_map))"
    using R by (metis set_map)
  show "fst ` set T \<inter> fst ` set R = {}"
    unfolding r unfolding T by auto
  show "fst ` set T \<subseteq> fst ` set model_map"
    unfolding T by auto
  show "fst ` set R \<subseteq> fst ` set model_map"
    unfolding r by auto
qed

lemma collect_completed:
  assumes part: "partition_models cache model_map [] [] = Inr (R, T)"
    and ret: "\<forall>f\<in>set (fst (dispatch key T nw)). \<not> isl f"
  shows "\<exists>C'. collect (as_completed ps (fst (dispatch key T nw))) R cache
              = Inr (R @ map to_result (returned_of (as_completed ps (fst (dispatch key T nw)))), C')"
proof -
  let ?fs = "fst (dispatch key T nw)"
  let ?gs = "as_completed ps ?fs"
  have "\<forall>f\<in>set ?gs. \<not> isl f" using ret by (simp add: as_completed_set)
  then obtain R' C' where c: "collect ?gs R cache = Inr (R', C')"
    using collect_total by blast
  have names: "map fst (returned_of ?fs) = map fst T"
    using ret by (rule dispatch_names_all)
  have m: "mset (map fst (returned_of ?gs)) = mset (map fst T)"
    using completed_returned [of ps ?fs] names by (metis mset_map)
  have d: "distinct (map fst (returned_of ?gs))"
    using m to_call_names(1) [OF part] by (metis mset_eq_imp_distinct_iff)
  have "set (map fst (returned_of ?gs)) = set (map fst T)"
    using m by (rule mset_eq_setD)
  then have "fst ` set (returned_of ?gs) = fst ` set T" by simp
  with to_call_names(2) [OF part] have j: "fst ` set (returned_of ?gs) \<inter> fst ` set R = {}"
    by simp
  have "R' = R @ map to_result (returned_of ?gs)"
    by (rule collect_results [OF c d j])
  with c show ?thesis by blast
qed

lemma aborted_untouched:
  "(aborted w)\<lparr>net_after := internet w, attempted := [], returned := [], saved := []\<rparr> = aborted w"
  by (simp add: aborted_def)

lemma program_complete:
  assumes key: "API_KEY (env_key w) (secrets_out w) = Inr key"
    and load: "load_cache (cache_file w) = Inr cache"
    and part: "partition_models cache model_map [] [] = Inr (R, T)"
    and ret: "\<forall>f\<in>set (fst (dispatch key T (internet w))). \<not> isl f"
  shows "\<exists>C'. collect (as_completed (picks w) (fst (dispatch key T (internet w)))) R cache
              = Inr (R @ map to_result
                      (returned_of (as_completed (picks w) (fst (dispatch key T (internet w))))), C')
           \<and> program w
              = finish ((aborted w)\<lparr>net_after := snd (dispatch key T (internet w)),
                          attempted := map fst T,
                          returned := returned_of (fst (dispatch key T (internet w))),
                          saved := (if T \<noteq> [] then [C'] else [])\<rparr>)
                  (R @ map to_result
                      (returned_of (as_completed (picks w) (fst (dispatch key T (internet w))))))"
proof -
  from collect_completed [OF part ret, of "picks w"] obtain C' where
    c: "collect (as_completed (picks w) (fst (dispatch key T (internet w)))) R cache
        = Inr (R @ map to_result
                (returned_of (as_completed (picks w) (fst (dispatch key T (internet w))))), C')"
    by blast
  show ?thesis
  proof (cases "T = []")
    case True
    then show ?thesis
      using c program_run [OF key load part] by (simp add: aborted_untouched)
  next
    case False
    then show ?thesis
      using c program_run [OF key load part] by simp
  qed
qed

subsection \<open>The durations in the result dictionary\<close>

lemma store_ok_entries:
  assumes "store_ok st" and "load_cache st = Inr cache" and "map_of cache n = Some entry"
  shows "entry_ok entry"
proof (cases st)
  case Absent
  with assms show ?thesis by (simp add: load_cache_def)
next
  case Corrupt
  with assms show ?thesis by (simp add: load_cache_def)
next
  case (Stored c)
  with assms(2) have "cache = c" by (simp add: load_cache_def)
  with assms(3) have "(n, entry) \<in> set c" by (simp add: map_of_SomeD)
  with assms(1) Stored show ?thesis
    by (auto simp: store_ok_def list_all_iff)
qed

lemma store_ok_loads: "store_ok st \<Longrightarrow> \<exists>cache. load_cache st = Inr cache"
  by (cases st) (simp_all add: store_ok_def load_cache_def)

lemma store_ok_partition:
  assumes "store_ok st" and "load_cache st = Inr cache"
  shows "\<exists>R T. partition_models cache model_map [] [] = Inr (R, T)"
proof (rule partition_total)
  show "\<forall>entry\<in>snd ` set cache. entry_ok entry"
  proof
    fix entry
    assume "entry \<in> snd ` set cache"
    then obtain n where "(n, entry) \<in> set cache" by force
    then obtain e where "map_of cache n = Some e" "(n, e) \<in> set cache"
      by (metis map_of_SomeD weak_map_of_SomeI)
    with store_ok_entries [OF assms] have "entry_ok e" by blast
    show "entry_ok entry"
    proof (cases st)
      case Absent
      with assms(2) \<open>(n, entry) \<in> set cache\<close> show ?thesis by (simp add: load_cache_def)
    next
      case Corrupt
      with assms(2) show ?thesis by (simp add: load_cache_def)
    next
      case (Stored c)
      with assms(2) have "cache = c" by (simp add: load_cache_def)
      with assms(1) Stored \<open>(n, entry) \<in> set cache\<close> show ?thesis
        by (auto simp: store_ok_def list_all_iff)
    qed
  qed
qed

lemma entry_ok_elapsed:
  "entry_ok entry \<Longrightarrow> py_item entry ''elapsed'' = Inr e \<Longrightarrow> numeric e"
  by (cases entry) (auto split: option.splits pyval.splits)

lemma merged_numeric:
  assumes ok: "store_ok st" and load: "load_cache st = Inr cache"
    and part: "partition_models cache model_map [] [] = Inr (R, T)"
    and m: "map_of (R @ map to_result rs) n = Some (svg, el, err)"
  shows "numeric el"
proof -
  from m have "(n, svg, el, err) \<in> set (R @ map to_result rs)" by (rule map_of_SomeD)
  then consider "(n, svg, el, err) \<in> set R" | "(n, svg, el, err) \<in> to_result ` set rs"
    by auto
  then show ?thesis
  proof cases
    case 1
    from cached_entries [OF part 1] obtain entry where
      "map_of cache n = Some entry" "py_item entry ''elapsed'' = Inr el" by blast
    with store_ok_entries [OF ok load] entry_ok_elapsed show ?thesis by blast
  next
    case 2
    then show ?thesis by (auto simp: to_result_def)
  qed
qed

lemma program_exit_ok:
  assumes key: "API_KEY (env_key w) (secrets_out w) = Inr key"
    and load: "load_cache (cache_file w) = Inr cache"
    and part: "partition_models cache model_map [] [] = Inr (R, T)"
    and ret: "\<forall>f\<in>set (fst (dispatch key T (internet w))). \<not> isl f"
    and ok: "store_ok (cache_file w)"
  shows "exit_status (program w) = 0"
    and "\<exists>rep. index_html (program w) = Some rep
          \<and> build_html (merged (program w)) model_dates = Inr rep"
    and "\<exists>ls. console (program w) = ls \<and> summary_lines (merged (program w)) model_map = Inr ls"
proof -
  let ?rs = "returned_of (as_completed (picks w) (fst (dispatch key T (internet w))))"
  let ?M = "R @ map to_result ?rs"
  from program_complete [OF key load part ret] obtain C' where
    p: "program w = finish ((aborted w)\<lparr>net_after := snd (dispatch key T (internet w)),
                          attempted := map fst T,
                          returned := returned_of (fst (dispatch key T (internet w))),
                          saved := (if T \<noteq> [] then [C'] else [])\<rparr>) ?M"
    by blast
  have num: "\<forall>n svg el err. map_of ?M n = Some (svg, el, err) \<longrightarrow> numeric el"
    using merged_numeric [OF ok load part] by blast
  from build_html_total [OF num] obtain rep where b: "build_html ?M model_dates = Inr rep"
    by blast
  from summary_lines_total [OF num] obtain ls where s: "summary_lines ?M model_map = Inr ls"
    by blast
  show "exit_status (program w) = 0"
    unfolding p by (simp add: finish_def b s)
  have mg: "merged (program w) = ?M" unfolding p by (rule finish_merged)
  show "\<exists>rep. index_html (program w) = Some rep
          \<and> build_html (merged (program w)) model_dates = Inr rep"
    unfolding mg unfolding p by (simp add: finish_def b s)
  show "\<exists>ls. console (program w) = ls \<and> summary_lines (merged (program w)) model_map = Inr ls"
    unfolding mg unfolding p by (simp add: finish_def b s)
qed

subsection \<open>Successful calls\<close>

lemma re_search_svg_nonempty: "re_search_svg t = Some m \<Longrightarrow> m \<noteq> []"
proof (induction t)
  case Nil
  then show ?case by simp
next
  case (Cons c cs)
  show ?case
  proof (cases "match_svg (c # cs)")
    case None
    with Cons show ?thesis by simp
  next
    case (Some a)
    with Cons.prems have "a = m" by simp
    from Some have "ci_prefix ''<svg'' (c # cs)"
      by (simp add: match_svg_def split: if_splits)
    then have "4 \<le> length (c # cs)" by (simp add: ci_prefix_iff)
    then have "take 4 (c # cs) \<noteq> []" by simp
    with Some \<open>a = m\<close> show ?thesis
      by (auto simp: match_svg_def split: if_splits)
  qed
qed

lemma call_model_success:
  assumes "fst (call_model key name mid nw) = Inr (n, Some svg, el, err)"
  shows "svg \<noteq> [] \<and> err = None"
proof -
  from call_model_ret [OF assms] have e: "err = None" by simp
  have "svg \<noteq> []"
  proof (cases "outcome (fst (urlopen key mid nw))")
    case (Content answer)
    with assms have "extract_svg answer = Some svg"
      by (simp add: call_model_content split: option.splits)
    then show ?thesis by (simp add: extract_svg_def re_search_svg_nonempty)
  next
    case (HTTPError code fp)
    with assms show ?thesis
      by (cases fp) (auto simp: call_model_def Let_def split_beta read_body_def)
  next
    case (Failure msg)
    with assms show ?thesis
      by (auto simp: call_model_def Let_def split_beta)
  qed
  with e show ?thesis by simp
qed

lemma dispatch_success:
  "(n, Some svg, el, err) \<in> set (returned_of (fst (dispatch key T nw))) \<Longrightarrow>
   svg \<noteq> [] \<and> err = None"
proof (induction T arbitrary: nw)
  case Nil
  then show ?case by simp
next
  case (Cons p T)
  obtain name mid where p: "p = (name, mid)" by (cases p)
  let ?f = "fst (call_model key name mid nw)"
  let ?nw = "snd (call_model key name mid nw)"
  have d: "fst (dispatch key (p # T) nw) = ?f # fst (dispatch key T ?nw)"
    by (simp add: p split_beta Let_def)
  show ?case
  proof (cases ?f)
    case (Inl x)
    with Cons.prems d have "(n, Some svg, el, err) \<in> set (returned_of (fst (dispatch key T ?nw)))"
      by simp
    then show ?thesis by (rule Cons.IH)
  next
    case (Inr r)
    with Cons.prems d have "r = (n, Some svg, el, err)
       \<or> (n, Some svg, el, err) \<in> set (returned_of (fst (dispatch key T ?nw)))"
      by auto
    then show ?thesis
    proof
      assume "r = (n, Some svg, el, err)"
      with Inr show ?thesis using call_model_success by blast
    next
      assume "(n, Some svg, el, err) \<in> set (returned_of (fst (dispatch key T ?nw)))"
      then show ?thesis by (rule Cons.IH)
    qed
  qed
qed

subsection \<open>Saving the cache\<close>

lemma all_returned_iff:
  "length (returned_of fs) = length fs \<longleftrightarrow> (\<forall>f\<in>set fs. \<not> isl f)"
proof (induction fs)
  case Nil
  then show ?case by simp
next
  case (Cons f fs)
  have le: "length (returned_of fs) \<le> length fs"
    by (simp add: returned_of_filter)
  show ?case
  proof (cases f)
    case (Inl x)
    with le show ?thesis by auto
  next
    case (Inr r)
    with Cons show ?thesis by simp
  qed
qed

lemma program_all_returned:
  assumes "API_KEY (env_key w) (secrets_out w) = Inr key"
    and "load_cache (cache_file w) = Inr cache"
    and "partition_models cache model_map [] [] = Inr (R, T)"
  shows "length (returned (program w)) = length (attempted (program w))
         \<longleftrightarrow> (\<forall>f\<in>set (fst (dispatch key T (internet w))). \<not> isl f)"
proof -
  have "length (attempted (program w)) = length (fst (dispatch key T (internet w)))"
    unfolding program_attempted(1) [OF assms] by (simp add: dispatch_length)
  then show ?thesis
    unfolding program_attempted(3) [OF assms] by (simp add: all_returned_iff)
qed

lemma program_started:
  "program w = aborted w
   \<or> (\<exists>key cache R T. API_KEY (env_key w) (secrets_out w) = Inr key
         \<and> load_cache (cache_file w) = Inr cache
         \<and> partition_models cache model_map [] [] = Inr (R, T))"
proof (cases "API_KEY (env_key w) (secrets_out w)")
  case (Inl x)
  then show ?thesis by (simp add: program_def)
next
  case key: (Inr key)
  show ?thesis
  proof (cases "load_cache (cache_file w)")
    case (Inl x)
    with key show ?thesis by (simp add: program_def main_def)
  next
    case load: (Inr cache)
    show ?thesis
    proof (cases "partition_models cache model_map [] []")
      case (Inl x)
      with key load show ?thesis by (simp add: program_def main_def)
    next
      case (Inr p)
      obtain R T where "p = (R, T)" by (cases p)
      with Inr key load show ?thesis by blast
    qed
  qed
qed

lemma saved_at_most_once: "length (saved (program w)) \<le> 1"
proof -
  from program_started [of w] show ?thesis
  proof
    assume "program w = aborted w"
    then show ?thesis by simp
  next
    assume "\<exists>key cache R T. API_KEY (env_key w) (secrets_out w) = Inr key
         \<and> load_cache (cache_file w) = Inr cache
         \<and> partition_models cache model_map [] [] = Inr (R, T)"
    then obtain key cache R T where h: "API_KEY (env_key w) (secrets_out w) = Inr key"
      "load_cache (cache_file w) = Inr cache"
      "partition_models cache model_map [] [] = Inr (R, T)" by blast
    show ?thesis
      unfolding program_run [OF h] by (auto split: sum.splits)
  qed
qed

lemma saved_after_calls:
  assumes "saved (program w) \<noteq> []"
  shows "attempted (program w) \<noteq> []
         \<and> length (returned (program w)) = length (attempted (program w))"
proof -
  from program_started [of w] show ?thesis
  proof
    assume "program w = aborted w"
    with assms show ?thesis by simp
  next
    assume "\<exists>key cache R T. API_KEY (env_key w) (secrets_out w) = Inr key
         \<and> load_cache (cache_file w) = Inr cache
         \<and> partition_models cache model_map [] [] = Inr (R, T)"
    then obtain key cache R T where h: "API_KEY (env_key w) (secrets_out w) = Inr key"
      "load_cache (cache_file w) = Inr cache"
      "partition_models cache model_map [] [] = Inr (R, T)" by blast
    let ?fs = "fst (dispatch key T (internet w))"
    from assms have T: "T \<noteq> []"
      unfolding program_run [OF h] by (auto split: sum.splits if_splits)
    from assms T obtain R' C' where
      c: "collect (as_completed (picks w) ?fs) R cache = Inr (R', C')"
      unfolding program_run [OF h] by (auto split: sum.splits)
    from collect_all_Inr [OF c] have "\<forall>f\<in>set ?fs. \<not> isl f"
      by (simp add: as_completed_set)
    with program_all_returned [OF h] T show ?thesis
      by (simp add: program_attempted(1) [OF h])
  qed
qed

lemma saved_mapping:
  assumes key: "API_KEY (env_key w) (secrets_out w) = Inr key"
    and load: "load_cache (cache_file w) = Inr cache"
    and part: "partition_models cache model_map [] [] = Inr (R, T)"
    and ret: "length (returned (program w)) = length (attempted (program w))"
  shows "saved (program w) = (if T = [] then [] else [C])
         \<longleftrightarrow> T = [] \<or> collect (as_completed (picks w) (fst (dispatch key T (internet w)))) R cache
                        = Inr (merged (program w), C)"
proof -
  from ret have all: "\<forall>f\<in>set (fst (dispatch key T (internet w))). \<not> isl f"
    by (simp add: program_all_returned [OF key load part])
  from program_complete [OF key load part all] obtain C' where
    c: "collect (as_completed (picks w) (fst (dispatch key T (internet w)))) R cache
              = Inr (R @ map to_result
                      (returned_of (as_completed (picks w) (fst (dispatch key T (internet w))))), C')"
    and p: "program w
              = finish ((aborted w)\<lparr>net_after := snd (dispatch key T (internet w)),
                          attempted := map fst T,
                          returned := returned_of (fst (dispatch key T (internet w))),
                          saved := (if T \<noteq> [] then [C'] else [])\<rparr>)
                  (R @ map to_result
                      (returned_of (as_completed (picks w) (fst (dispatch key T (internet w))))))"
    by blast
  have s: "saved (program w) = (if T \<noteq> [] then [C'] else [])"
    by (subst p) simp
  have m: "merged (program w) = R @ map to_result
                      (returned_of (as_completed (picks w) (fst (dispatch key T (internet w)))))"
    by (subst p) (rule finish_merged)
  show ?thesis
    unfolding s m c by auto
qed

lemma saved_entries:
  assumes load: "load_cache (cache_file w) = Inr cache"
    and sv: "saved (program w) = [C']"
  shows "(n, Some svg, el, err) \<in> set (returned (program w))
           \<Longrightarrow> map_of C' n = Some (entry_of svg el)"
    and "(n, None, el, err) \<in> set (returned (program w)) \<Longrightarrow> map_of C' n = map_of cache n"
    and "n \<notin> fst ` set (returned (program w)) \<Longrightarrow> map_of C' n = map_of cache n"
proof -
  from sv have na: "program w \<noteq> aborted w" by auto
  with program_started [of w] load obtain key R T where h:
    "API_KEY (env_key w) (secrets_out w) = Inr key"
    "load_cache (cache_file w) = Inr cache"
    "partition_models cache model_map [] [] = Inr (R, T)"
    by auto
  let ?fs = "fst (dispatch key T (internet w))"
  let ?gs = "as_completed (picks w) ?fs"
  from sv have T: "T \<noteq> []"
    unfolding program_run [OF h] by (auto split: sum.splits if_splits)
  from sv T obtain R' where c: "collect ?gs R cache = Inr (R', C')"
    unfolding program_run [OF h] by (auto split: sum.splits)
  from collect_all_Inr [OF c] have all: "\<forall>f\<in>set ?fs. \<not> isl f"
    by (simp add: as_completed_set)
  have ret: "returned (program w) = returned_of ?fs"
    by (rule program_attempted(3) [OF h])
  have ms: "mset (returned_of ?gs) = mset (returned_of ?fs)"
    by (rule completed_returned)
  then have st: "set (returned_of ?gs) = set (returned (program w))"
    unfolding ret by (rule mset_eq_setD)
  have "mset (map fst (returned_of ?gs)) = mset (map fst T)"
    using ms dispatch_names_all [OF all] by (metis mset_map)
  then have d: "distinct (map fst (returned_of ?gs))"
    using to_call_names(1) [OF h(3)] by (metis mset_eq_imp_distinct_iff)
  show "map_of C' n = Some (entry_of svg el)"
    if m: "(n, Some svg, el, err) \<in> set (returned (program w))"
  proof -
    from m have "svg \<noteq> [] \<and> err = None"
      unfolding ret by (rule dispatch_success)
    moreover from m st have "(n, Some svg, el, err) \<in> set (returned_of ?gs)" by simp
    ultimately show ?thesis
      using collect_cache_name [OF c d] by (simp add: of_opt_def entry_of_def)
  qed
  show "map_of C' n = map_of cache n"
    if m: "(n, None, el, err) \<in> set (returned (program w))"
  proof -
    from m st have "(n, None, el, err) \<in> set (returned_of ?gs)" by simp
    then show ?thesis
      using collect_cache_name [OF c d] by (simp add: of_opt_def)
  qed
  show "map_of C' n = map_of cache n" if "n \<notin> fst ` set (returned (program w))"
  proof -
    from that st have "n \<notin> fst ` set (returned_of ?gs)" by simp
    then show ?thesis by (rule collect_cache_other [OF c])
  qed
qed

lemma to_call_empty_iff:
  assumes "partition_models cache model_map [] [] = Inr (R, T)"
  shows "T \<noteq> [] \<longleftrightarrow> (\<exists>n m. (n, m) \<in> set model_map \<and> \<not> cache_hit cache n)"
  unfolding to_call_filter [OF assms] by (auto simp: filter_empty_conv)

section \<open>Properties of a single call\<close>

lemma strip_example: "strip_fences example_answer
   = ''here'' @ [CHR 0x27] @ ''s your svg: <svg><circle/></svg>'' @ [CHR 0x0A] @ ''thanks''"
  by code_simp

text \<open>
  C1. The answer of a successful request is first stripped of its code fences: no
  \<^verbatim>\<open>```\<close> is left in the stripped text, a text without backticks is left as it is, and
  of a block that opens with \<^verbatim>\<open>```\<close>, an optional \<^verbatim>\<open>svg\<close>, \<^verbatim>\<open>xml\<close> or \<^verbatim>\<open>html\<close> and
  a newline and closes with \<^verbatim>\<open>```\<close> only the body remains, without the white space
  that follows either delimiter. Then, if the first case-insensitive \<^verbatim>\<open><svg\<close> of the
  stripped text is at offset \<open>i\<close> and the first case-insensitive \<^verbatim>\<open></svg>\<close> at or after
  \<open>i + 4\<close> is at offset \<open>j\<close>, the call succeeds and its output is the stripped text from
  \<open>i\<close> up to the end of that closing tag, both tags included, whatever lies between them
  (newlines too). On the example answer the output is exactly \<^verbatim>\<open><svg><circle/></svg>\<close>;
  upper-case tags are extracted as lower-case ones are, and in general the search on the
  case-folded text gives the case-folded result of the search.
\<close>

theorem call_model_first_fragment:
  "(outcome (fst (urlopen key mid net)) = Content content \<and>
    occurs_ci ''<svg'' (strip_fences content) i \<and>
    (\<forall>k<i. \<not> occurs_ci ''<svg'' (strip_fences content) k) \<and>
    i + 4 \<le> j \<and> occurs_ci ''</svg>'' (strip_fences content) j \<and>
    (\<forall>k. i + 4 \<le> k \<and> k < j \<longrightarrow> \<not> occurs_ci ''</svg>'' (strip_fences content) k)
    \<longrightarrow> fst (call_model key name mid net)
        = Inr (name, Some (take (j + 6 - i) (drop i (strip_fences content))),
               took (fst (urlopen key mid net)), None))
   \<and> \<not> sublist ''```'' (strip_fences content)
   \<and> (CHR 0x60 \<notin> set content \<longrightarrow> strip_fences content = content)
   \<and> (CHR 0x60 \<notin> set (a @ b @ c) \<and> lang \<in> {[], ''svg'', ''xml'', ''html''}
        \<and> (c = [] \<or> is_space (hd c))
      \<longrightarrow> strip_fences (a @ ''```'' @ lang @ [CHR 0x0A] @ b @ ''```'' @ c)
          = a @ dropWhile is_space b @ dropWhile is_space c)
   \<and> fst (call_model key name mid (canned (Content example_answer)))
       = Inr (name, Some ''<svg><circle/></svg>'', 2, None)
   \<and> fst (call_model key name mid (canned (Content ''<SVG><circle/></SVG>'')))
       = Inr (name, Some ''<SVG><circle/></SVG>'', 2, None)
   \<and> re_search_svg (map lower t) = map_option (map lower) (re_search_svg t)"
proof (intro conjI impI)
  assume h: "outcome (fst (urlopen key mid net)) = Content content \<and>
    occurs_ci ''<svg'' (strip_fences content) i \<and>
    (\<forall>k<i. \<not> occurs_ci ''<svg'' (strip_fences content) k) \<and>
    i + 4 \<le> j \<and> occurs_ci ''</svg>'' (strip_fences content) j \<and>
    (\<forall>k. i + 4 \<le> k \<and> k < j \<longrightarrow> \<not> occurs_ci ''</svg>'' (strip_fences content) k)"
  have "re_search_svg (strip_fences content)
        = Some (take (j + 6 - i) (drop i (strip_fences content)))"
  proof (rule re_search_svg_first)
    show "occurs_ci ''<svg'' (strip_fences content) i" using h by simp
    show "\<forall>k<i. \<not> occurs_ci ''<svg'' (strip_fences content) k" using h by simp
    show "i + 4 \<le> j" using h by simp
    show "occurs_ci ''</svg>'' (strip_fences content) j" using h by simp
    show "\<forall>k. i + 4 \<le> k \<and> k < j \<longrightarrow> \<not> occurs_ci ''</svg>'' (strip_fences content) k"
      using h by simp
  qed
  then have "extract_svg content = Some (take (j + 6 - i) (drop i (strip_fences content)))"
    by (simp add: extract_svg_def)
  moreover have "outcome (fst (urlopen key mid net)) = Content content" using h by simp
  ultimately show "fst (call_model key name mid net)
        = Inr (name, Some (take (j + 6 - i) (drop i (strip_fences content))),
               took (fst (urlopen key mid net)), None)"
    by (simp add: call_model_content)
next
  show "\<not> sublist ''```'' (strip_fences content)"
    unfolding strip_fences_def by (rule no_ticks_replace)
next
  assume "CHR 0x60 \<notin> set content"
  then show "strip_fences content = content" by (rule strip_fences_tickfree)
next
  assume h: "CHR 0x60 \<notin> set (a @ b @ c) \<and> lang \<in> {[], ''svg'', ''xml'', ''html''}
        \<and> (c = [] \<or> is_space (hd c))"
  show "strip_fences (a @ ''```'' @ lang @ [CHR 0x0A] @ b @ ''```'' @ c)
          = a @ dropWhile is_space b @ dropWhile is_space c"
  proof (rule strip_fences_block)
    show "CHR 0x60 \<notin> set a" "CHR 0x60 \<notin> set b" "CHR 0x60 \<notin> set c" using h by simp_all
    show "lang \<in> {[], ''svg'', ''xml'', ''html''}" using h by blast
    show "c = [] \<or> is_space (hd c)" using h by blast
  qed
next
  have "extract_svg example_answer = Some ''<svg><circle/></svg>''" by code_simp
  then show "fst (call_model key name mid (canned (Content example_answer)))
       = Inr (name, Some ''<svg><circle/></svg>'', 2, None)"
    by (simp add: call_model_content)
next
  have "extract_svg ''<SVG><circle/></SVG>'' = Some ''<SVG><circle/></SVG>''" by code_simp
  then show "fst (call_model key name mid (canned (Content ''<SVG><circle/></SVG>'')))
       = Inr (name, Some ''<SVG><circle/></SVG>'', 2, None)"
    by (simp add: call_model_content)
next
  show "re_search_svg (map lower t) = map_option (map lower) (re_search_svg t)"
    by (rule re_search_svg_lower)
qed

theorem call_model_first_fragment_witness:
  "occurs_ci ''<svg'' (strip_fences example_answer) 17 \<and>
   occurs_ci ''</svg>'' (strip_fences example_answer) 31 \<and>
   fst (call_model ''k'' ''GPT-5'' ''openai/gpt-5'' (canned (Content example_answer)))
     = Inr (''GPT-5'', Some (take (31 + 6 - 17) (drop 17 (strip_fences example_answer))), 2, None) \<and>
   strip_fences example_answer
     = ''here'' @ [CHR 0x27] @ ''s your svg: <svg><circle/></svg>'' @ [CHR 0x0A] @ ''thanks''"
proof -
  let ?t = "''here'' @ [CHR 0x27] @ ''s your svg: <svg><circle/></svg>'' @ [CHR 0x0A] @ ''thanks''"
  let ?a = "''here'' @ [CHR 0x27] @ ''s your svg: ''"
  let ?b = "''<svg><circle/></svg>'' @ [CHR 0x0A]"
  let ?c = "'' thanks''"
  let ?net = "canned (Content example_answer)"
  note inst = call_model_first_fragment [of "''k''" "''openai/gpt-5''" ?net example_answer 17 31
      "''GPT-5''" ?a ?b ?c "''svg''"]
  have h0: "outcome (fst (urlopen ''k'' ''openai/gpt-5'' ?net)) = Content example_answer"
    by simp
  have h1: "occurs_ci ''<svg'' ?t 17" by code_simp
  have b2: "\<forall>k\<in>{0..<17}. \<not> occurs_ci ''<svg'' ?t k" by code_simp
  have h2: "\<forall>k<17. \<not> occurs_ci ''<svg'' ?t k"
  proof (intro allI impI)
    fix k :: nat
    assume "k < 17"
    then have "k \<in> {0..<17}" by simp
    with b2 show "\<not> occurs_ci ''<svg'' ?t k" by blast
  qed
  have h3: "17 + 4 \<le> (31::nat)" by simp
  have h4: "occurs_ci ''</svg>'' ?t 31" by code_simp
  have b5: "\<forall>k\<in>{17 + 4..<31}. \<not> occurs_ci ''</svg>'' ?t k" by code_simp
  have h5: "\<forall>k. 17 + 4 \<le> k \<and> k < 31 \<longrightarrow> \<not> occurs_ci ''</svg>'' ?t k"
  proof (intro allI impI)
    fix k :: nat
    assume "17 + 4 \<le> k \<and> k < 31"
    then have "k \<in> {17 + 4..<31}" by simp
    with b5 show "\<not> occurs_ci ''</svg>'' ?t k" by blast
  qed
  have g1: "occurs_ci ''<svg'' (strip_fences example_answer) 17"
    unfolding strip_example by (rule h1)
  have g2: "\<forall>k<17. \<not> occurs_ci ''<svg'' (strip_fences example_answer) k"
    unfolding strip_example by (rule h2)
  have g4: "occurs_ci ''</svg>'' (strip_fences example_answer) 31"
    unfolding strip_example by (rule h4)
  have g5: "\<forall>k. 17 + 4 \<le> k \<and> k < 31 \<longrightarrow> \<not> occurs_ci ''</svg>'' (strip_fences example_answer) k"
    unfolding strip_example by (rule h5)
  note h = conjI [OF h0 conjI [OF g1 conjI [OF g2 conjI [OF h3 conjI [OF g4 g5]]]]]
  have c: "fst (call_model ''k'' ''GPT-5'' ''openai/gpt-5'' ?net)
           = Inr (''GPT-5'', Some (take (31 + 6 - 17) (drop 17 (strip_fences example_answer))), 2, None)"
    using inst [THEN conjunct1, rule_format, OF h] by simp
  have e: "example_answer = ?a @ ''```'' @ ''svg'' @ [CHR 0x0A] @ ?b @ ''```'' @ ?c"
    by (simp add: example_answer_def)
  have k1: "CHR 0x60 \<notin> set (?a @ ?b @ ?c)" by simp
  have k2: "''svg'' \<in> {[], ''svg'', ''xml'', ''html''}" by simp
  have k3: "?c = [] \<or> is_space (hd ?c)" by (simp add: is_space_def)
  have r: "?a @ dropWhile is_space ?b @ dropWhile is_space ?c = ?t" by code_simp
  have d: "strip_fences example_answer = ?t"
    using inst [THEN conjunct2, THEN conjunct2, THEN conjunct2, THEN conjunct1, rule_format,
               OF conjI [OF k1 conjI [OF k2 k3]]]
    unfolding e [symmetric] r .
  show ?thesis
    by (rule conjI [OF g1 conjI [OF g4 conjI [OF c d]]])
qed

text \<open>
  C4. When the request succeeds and the answer parses, but the stripped text has no
  \<^verbatim>\<open><svg\<close> followed by a \<^verbatim>\<open></svg>\<close> (case ignored), the call result has no output and
  carries the error message \<^verbatim>\<open>No <svg> tag found in response\<close>.
\<close>

theorem no_svg_is_failure:
  assumes "outcome (fst (urlopen key mid net)) = Content text"
    and "\<forall>i j. \<not> (occurs_ci ''<svg'' (strip_fences text) i \<and> i + 4 \<le> j
                  \<and> occurs_ci ''</svg>'' (strip_fences text) j)"
  shows "fst (call_model key name mid net)
         = Inr (name, None, took (fst (urlopen key mid net)),
                Some ''No <svg> tag found in response'')"
proof -
  have "re_search_svg (strip_fences text) = None"
    using assms(2) by (rule re_search_svg_none)
  then have "extract_svg text = None"
    by (simp add: extract_svg_def)
  with assms(1) show ?thesis
    by (simp add: call_model_def Let_def split_beta)
qed

theorem no_svg_is_failure_witness:
  "fst (call_model ''k'' ''GPT-5'' ''openai/gpt-5'' (canned (Content ''no <svg'')))
   = Inr (''GPT-5'', None, 2, Some ''No <svg> tag found in response'')"
proof -
  have a: "outcome (fst (urlopen ''k'' ''openai/gpt-5'' (canned (Content ''no <svg''))))
           = Content ''no <svg''"
    by (simp add: urlopen_def canned_def)
  have s: "strip_fences ''no <svg'' = ''no <svg''" by code_simp
  have b: "\<forall>i j. \<not> (occurs_ci ''<svg'' (strip_fences ''no <svg'') i \<and> i + 4 \<le> j
             \<and> occurs_ci ''</svg>'' (strip_fences ''no <svg'') j)"
    unfolding s by (simp add: occurs_ci_def)
  have "took (fst (urlopen ''k'' ''openai/gpt-5'' (canned (Content ''no <svg'')))) = 2"
    by (simp add: urlopen_def canned_def)
  with no_svg_is_failure [OF a b, of "''GPT-5''"] show ?thesis by (simp only:)
qed

text \<open>
  C3. In every result that \<open>call_model\<close> returns, exactly one of the output and the
  error message is \<^verbatim>\<open>None\<close>, and a call returns a result for every answer of the
  network but one kind: on an \<^verbatim>\<open>HTTPError\<close> whose body cannot be read or decoded the
  \<^verbatim>\<open>except HTTPError\<close> handler itself raises, so the call resolves neither to a success
  nor to a failure with a message. The last conjunct runs the call on such an answer, an
  HTTP 500 whose body is not valid UTF-8.
\<close>

theorem call_model_result_or_raise:
  "(fst (call_model key name mid net) = Inr (n, out, el, err)
      \<longrightarrow> n = name \<and> (out = None) \<noteq> (err = None))
   \<and> (fst (call_model key name mid net) = Inl e
      \<longrightarrow> (\<exists>code. outcome (fst (urlopen key mid net)) = HTTPError code Unreadable))
   \<and> fst (call_model key name mid (canned (HTTPError 500 Unreadable))) = Inl UnicodeDecodeError"
proof (intro conjI impI)
  assume "fst (call_model key name mid net) = Inr (n, out, el, err)"
  then show "n = name" "(out = None) \<noteq> (err = None)"
    using call_model_ret by blast+
next
  assume "fst (call_model key name mid net) = Inl e"
  then show "\<exists>code. outcome (fst (urlopen key mid net)) = HTTPError code Unreadable"
    by (rule call_model_raise)
next
  show "fst (call_model key name mid (canned (HTTPError 500 Unreadable))) = Inl UnicodeDecodeError"
    by (simp add: call_model_def Let_def split_beta read_body_def)
qed

theorem call_model_result_or_raise_witness:
  "fst (call_model ''k'' ''GPT-5'' ''openai/gpt-5'' (canned (Failure ''timed out'')))
     = Inr (''GPT-5'', None, 2, Some ''timed out'')
   \<and> ((None :: string option) = None) \<noteq> (Some ''timed out'' = None)
   \<and> fst (call_model ''k'' ''GPT-5'' ''openai/gpt-5'' (canned (HTTPError 500 Unreadable)))
     = Inl UnicodeDecodeError
   \<and> (\<exists>code. outcome (fst (urlopen ''k'' ''openai/gpt-5'' (canned (HTTPError 500 Unreadable))))
          = HTTPError code Unreadable)"
proof -
  note inst = call_model_result_or_raise
  have a: "fst (call_model ''k'' ''GPT-5'' ''openai/gpt-5'' (canned (Failure ''timed out'')))
     = Inr (''GPT-5'', None, 2, Some ''timed out'')"
    by (simp add: call_model_def Let_def split_beta)
  have b: "((None :: string option) = None) \<noteq> (Some ''timed out'' = None)"
    using inst [THEN conjunct1, rule_format, OF a] by (rule conjunct2)
  have c: "fst (call_model ''k'' ''GPT-5'' ''openai/gpt-5'' (canned (HTTPError 500 Unreadable)))
     = Inl UnicodeDecodeError"
    by (rule inst [THEN conjunct2, THEN conjunct2])
  have d: "\<exists>code. outcome (fst (urlopen ''k'' ''openai/gpt-5'' (canned (HTTPError 500 Unreadable))))
          = HTTPError code Unreadable"
    by (rule inst [THEN conjunct2, THEN conjunct1, rule_format, OF c])
  show ?thesis
    by (rule conjI [OF a conjI [OF b conjI [OF c d]]])
qed

text \<open>
  C9. On an \<^verbatim>\<open>HTTPError\<close> whose body is absent or can be read and decoded, the result
  has no output and its error message is \<^verbatim>\<open>HTTP\<close>, the decimal numeral of the status
  code, a colon and the first 200 characters of the body (the whole body when it is not
  longer). The call sends exactly one request, whatever the endpoint would have answered
  to a second one. On an \<^verbatim>\<open>HTTPError\<close> whose body cannot be read or decoded there is no
  result and no message: the handler raises. The last conjunct runs the call on such an
  answer, an HTTP 503 whose body is not valid UTF-8.
\<close>

theorem http_error_result:
  "(outcome (fst (urlopen key mid net)) = HTTPError code fp
      \<and> (fp = NoFp \<and> body = [] \<or> fp = Readable body)
      \<longrightarrow> call_model key name mid net
          = (Inr (name, None, took (fst (urlopen key mid net)),
                  Some (''HTTP '' @ str_nat code @ '': '' @ take 200 body)),
             net\<lparr>sent := sent net @ [(key, mid)]\<rparr>))
   \<and> decimal_of code (str_nat code)
   \<and> length (take 200 body) = min 200 (length body)
   \<and> prefix (take 200 body) body
   \<and> call_model key name mid (canned (HTTPError 503 Unreadable))
       = (Inl UnicodeDecodeError, (canned (HTTPError 503 Unreadable))\<lparr>sent := [(key, mid)]\<rparr>)"
proof (intro conjI impI)
  assume h: "outcome (fst (urlopen key mid net)) = HTTPError code fp
      \<and> (fp = NoFp \<and> body = [] \<or> fp = Readable body)"
  then have "read_body fp = Inr body" by (auto simp: read_body_def)
  with h show "call_model key name mid net
          = (Inr (name, None, took (fst (urlopen key mid net)),
                  Some (''HTTP '' @ str_nat code @ '': '' @ take 200 body)),
             net\<lparr>sent := sent net @ [(key, mid)]\<rparr>)"
    by (simp add: call_model_def Let_def split_beta urlopen_def)
next
  show "decimal_of code (str_nat code)" by (rule str_nat_decimal)
next
  show "length (take 200 body) = min 200 (length body)" by simp
next
  show "prefix (take 200 body) body" by (rule take_is_prefix)
next
  show "call_model key name mid (canned (HTTPError 503 Unreadable))
       = (Inl UnicodeDecodeError, (canned (HTTPError 503 Unreadable))\<lparr>sent := [(key, mid)]\<rparr>)"
    by (simp add: call_model_def Let_def split_beta urlopen_def read_body_def canned_def)
qed

theorem http_error_result_witness:
  "call_model ''k'' ''GPT-5'' ''openai/gpt-5''
     (canned (HTTPError 429 (Readable (replicate 250 CHR ''x''))))
   = (Inr (''GPT-5'', None, 2, Some (''HTTP 429: '' @ replicate 200 CHR ''x'')),
      (canned (HTTPError 429 (Readable (replicate 250 CHR ''x''))))\<lparr>sent := [(''k'', ''openai/gpt-5'')]\<rparr>)"
proof -
  let ?body = "replicate 250 CHR ''x''"
  let ?net = "canned (HTTPError 429 (Readable ?body))"
  have a: "outcome (fst (urlopen ''k'' ''openai/gpt-5'' ?net)) = HTTPError 429 (Readable ?body)
           \<and> (Readable ?body = NoFp \<and> ?body = [] \<or> Readable ?body = Readable ?body)"
    by simp
  have c: "str_nat 429 = ''429''" by code_simp
  have d: "took (fst (urlopen ''k'' ''openai/gpt-5'' ?net)) = 2"
    by simp
  have d': "sent ?net = []"
    by (simp add: canned_def)
  have e: "take 200 ?body = replicate 200 CHR ''x''" by simp
  have "call_model ''k'' ''GPT-5'' ''openai/gpt-5'' ?net
        = (Inr (''GPT-5'', None, took (fst (urlopen ''k'' ''openai/gpt-5'' ?net)),
                Some (''HTTP '' @ str_nat 429 @ '': '' @ take 200 ?body)),
           ?net\<lparr>sent := sent ?net @ [(''k'', ''openai/gpt-5'')]\<rparr>)"
    by (rule http_error_result [THEN conjunct1, rule_format, OF a])
  then show ?thesis unfolding c d d' e by simp
qed

section \<open>Properties of a run\<close>






end
